theory Spec2Isabelle
  imports Complex_Main "HOL-Library.Word"
begin

section \<open>JavaScript strings\<close>

text \<open>
  A JavaScript string is a sequence of UTF-16 code units. The service only applies
  \<^verbatim>\<open>trim\<close>, \<^verbatim>\<open>startsWith\<close>, \<^verbatim>\<open>includes\<close>, \<^verbatim>\<open>split(' ')\<close> and
  \<^verbatim>\<open>===\<close> to the text it receives; these are modelled on code units, the text being
  what \<^verbatim>\<open>Buffer.toString()\<close> has decoded.
\<close>

type_synonym jsstring = "nat list"

definition js :: "string \<Rightarrow> jsstring" where
  "js s = map of_char s"

text \<open>The code units that \<^verbatim>\<open>String.prototype.trim\<close> strips: ECMAScript's WhiteSpace
  and LineTerminator.\<close>

definition isWhiteSpace :: "nat \<Rightarrow> bool" where
  "isWhiteSpace c \<longleftrightarrow>
     c = 0x09 \<or> c = 0x0A \<or> c = 0x0B \<or> c = 0x0C \<or> c = 0x0D \<or> c = 0x20 \<or> c = 0xA0 \<or>
     c = 0x1680 \<or> (0x2000 \<le> c \<and> c \<le> 0x200A) \<or> c = 0x2028 \<or> c = 0x2029 \<or>
     c = 0x202F \<or> c = 0x205F \<or> c = 0x3000 \<or> c = 0xFEFF"

definition trim :: "jsstring \<Rightarrow> jsstring" where
  "trim s = rev (dropWhile isWhiteSpace (rev (dropWhile isWhiteSpace s)))"

fun startsWith :: "jsstring \<Rightarrow> jsstring \<Rightarrow> bool" where
  "startsWith s [] = True"
| "startsWith [] (p # ps) = False"
| "startsWith (c # cs) (p # ps) = (c = p \<and> startsWith cs ps)"

fun includes_str :: "jsstring \<Rightarrow> jsstring \<Rightarrow> bool" where
  "includes_str [] p = (p = [])"
| "includes_str (c # cs) p = (startsWith (c # cs) p \<or> includes_str cs p)"

text \<open>\<^verbatim>\<open>s.split(sep)\<close> for a separator of one code unit: every occurrence cuts, so two
  separators in a row give an empty piece, and the empty string gives one empty piece.\<close>

fun split :: "nat \<Rightarrow> jsstring \<Rightarrow> jsstring list" where
  "split sep [] = [[]]"
| "split sep (c # cs) =
     (if c = sep then [] # split sep cs
      else (case split sep cs of [] \<Rightarrow> [[c]] | w # ws \<Rightarrow> (c # w) # ws))"

text \<open>\<^verbatim>\<open>xs[i]\<close> on an array: \<^verbatim>\<open>undefined\<close> out of range.\<close>

definition index_opt :: "'a list \<Rightarrow> nat \<Rightarrow> 'a option" where
  "index_opt xs i = (if i < length xs then Some (xs ! i) else None)"

text \<open>A non-negative integer inside a template literal prints in decimal (the numbers
  here, ports and file sizes, stay below the \<open>10\<^sup>2\<^sup>1\<close> from which JavaScript switches to
  exponent notation).\<close>

fun show_nat :: "nat \<Rightarrow> jsstring" where
  "show_nat n = (if n < 10 then [48 + n] else show_nat (n div 10) @ [48 + n mod 10])"

declare show_nat.simps [simp del]

section \<open>Errors and promises\<close>

text \<open>Every \<^verbatim>\<open>Error\<close> the service constructs is a constructor of its own; an error object
  handed over by a library (UDP send callback, TCP write callback, socket and server
  \<^verbatim>\<open>'error'\<close> events, the file system) is \<open>LibError\<close> with its message.\<close>

datatype error =
    LibError jsstring
  | BadResponse jsstring
  | NoResponse
  | UploadFailed jsstring
  | ServerTimeout
  | InvitationFailed

text \<open>A promise settles once: \<^verbatim>\<open>resolve\<close> and \<^verbatim>\<open>reject\<close> on a settled promise do
  nothing.\<close>

datatype 'a promise = Pending | Fulfilled 'a | Rejected error

fun settle :: "'a promise \<Rightarrow> 'a promise \<Rightarrow> 'a promise" where
  "settle v Pending = v"
| "settle v (Fulfilled r) = Fulfilled r"
| "settle v (Rejected e) = Rejected e"

fun is_Fulfilled :: "'a promise \<Rightarrow> bool" where
  "is_Fulfilled (Fulfilled r) = True"
| "is_Fulfilled p = False"

section \<open>The UDP invitation: \<^verbatim>\<open>sendInvitation\<close>\<close>

record InvitationResult =
  success :: bool
  needsAuth :: bool
  nonce :: "jsstring option"

text \<open>
  The state that the closures of one \<^verbatim>\<open>sendInvitation\<close> call share: the counter
  \<^verbatim>\<open>attempts\<close>, the socket (closed or not, the calls of \<^verbatim>\<open>socket.send\<close> made on it,
  whether the current attempt's \<^verbatim>\<open>responseHandler\<close> is attached to \<^verbatim>\<open>'message'\<close>), the
  pending \<^verbatim>\<open>setTimeout\<close> with its deadline, and the promise. \<open>now\<close> is the time in ms since
  the call. Each attempt attaches a handler of its own and the timer of that attempt
  detaches it before the next attempt starts, so at most one handler is attached.
\<close>

record invitation =
  now :: nat
  attempts :: nat
  sendCalls :: "(nat \<times> jsstring \<times> nat \<times> jsstring) list"
  listening :: bool
  closed :: bool
  timer :: "nat option"
  outcome :: "InvitationResult promise"

definition maxAttempts :: nat where
  "maxAttempts = 10"

definition resolve :: "InvitationResult \<Rightarrow> invitation \<Rightarrow> invitation" where
  "resolve r s = s\<lparr>outcome := settle (Fulfilled r) (outcome s)\<rparr>"

definition reject :: "error \<Rightarrow> invitation \<Rightarrow> invitation" where
  "reject e s = s\<lparr>outcome := settle (Rejected e) (outcome s)\<rparr>"

text \<open>What the UDP library does is not part of the repository. Two things are left to the
  environment: which events the socket emits (the event list below), and whether
  \<^verbatim>\<open>socket.send\<close> on a closed socket throws (the flag \<open>throws\<close>; the exception then leaves
  the timer callback before the handler and the next timer are installed).\<close>

record udp =
  closedSendThrows :: bool
  espIP :: jsstring
  espPort :: nat
  message :: jsstring

definition sendAttempt :: "udp \<Rightarrow> invitation \<Rightarrow> invitation" where
  "sendAttempt u s =
     (let s1 = s\<lparr>attempts := attempts s + 1,
                 sendCalls := sendCalls s @ [(now s, message u, espPort u, espIP u)]\<rparr>
      in if closed s \<and> closedSendThrows u then s1
         else s1\<lparr>listening := True, timer := Some (now s + 1000)\<rparr>)"

definition responseHandler :: "jsstring \<Rightarrow> invitation \<Rightarrow> invitation" where
  "responseHandler data s =
     (let response = trim data;
          s1 = s\<lparr>listening := False, closed := True\<rparr>
      in if response = js ''OK'' then
           resolve \<lparr>success = True, needsAuth = False, nonce = None\<rparr> s1
         else if startsWith response (js ''AUTH'') then
           resolve \<lparr>success = True, needsAuth = True,
                    nonce = index_opt (split 0x20 response) 1\<rparr> s1
         else reject (BadResponse response) s1)"

definition timeoutCallback :: "udp \<Rightarrow> invitation \<Rightarrow> invitation" where
  "timeoutCallback u s =
     (if attempts s < maxAttempts then sendAttempt u (s\<lparr>listening := False\<rparr>)
      else reject NoResponse (s\<lparr>listening := False, closed := True\<rparr>))"

text \<open>The pending timer fires at its deadline.\<close>

definition fire :: "udp \<Rightarrow> nat \<Rightarrow> invitation \<Rightarrow> invitation" where
  "fire u d s = timeoutCallback u (s\<lparr>now := d, timer := None\<rparr>)"

datatype udp_event = Reply jsstring | SendError jsstring

text \<open>\<open>Reply data\<close>: the socket emits \<^verbatim>\<open>'message'\<close>; \<open>SendError err\<close>: the callback given
  to \<^verbatim>\<open>socket.send\<close> is called with an error.\<close>

fun deliver :: "udp_event \<Rightarrow> invitation \<Rightarrow> invitation" where
  "deliver (Reply data) s = (if listening s then responseHandler data s else s)"
| "deliver (SendError err) s = reject (LibError err) (s\<lparr>closed := True\<rparr>)"

text \<open>Time passes until \<open>t\<close>: every timer due by then fires, in order.\<close>

function advance :: "udp \<Rightarrow> nat \<Rightarrow> invitation \<Rightarrow> invitation" where
  "advance u t s =
     (case timer s of
        None \<Rightarrow> s\<lparr>now := t\<rparr>
      | Some d \<Rightarrow> if d \<le> t then advance u t (fire u d s) else s\<lparr>now := t\<rparr>)"
  by pat_completeness auto
termination
  by (relation "measure (\<lambda>(u, t, s). case timer s of None \<Rightarrow> 0
                                     | Some d \<Rightarrow> Suc (maxAttempts - attempts s))")
     (auto simp: fire_def timeoutCallback_def sendAttempt_def reject_def Let_def
           split: option.splits)

declare advance.simps [simp del]

text \<open>No more events: the timers that are left fire one after the other.\<close>

function drain :: "udp \<Rightarrow> invitation \<Rightarrow> invitation" where
  "drain u s = (case timer s of None \<Rightarrow> s | Some d \<Rightarrow> drain u (fire u d s))"
  by pat_completeness auto
termination
  by (relation "measure (\<lambda>(u, s). case timer s of None \<Rightarrow> 0
                                  | Some d \<Rightarrow> Suc (maxAttempts - attempts s))")
     (auto simp: fire_def timeoutCallback_def sendAttempt_def reject_def Let_def
           split: option.splits)

declare drain.simps [simp del]

text \<open>The events of the environment, each with the time in ms since the one before.\<close>

fun feed :: "udp \<Rightarrow> (nat \<times> udp_event) list \<Rightarrow> invitation \<Rightarrow> invitation" where
  "feed u [] s = s"
| "feed u ((dt, e) # es) s = feed u es (deliver e (advance u (now s + dt) s))"

definition invitationMessage :: "nat \<Rightarrow> nat \<Rightarrow> nat \<Rightarrow> jsstring \<Rightarrow> jsstring" where
  "invitationMessage command localPort fileSize fileMD5 =
     show_nat command @ [0x20] @ show_nat localPort @ [0x20] @ show_nat fileSize @ [0x20]
       @ fileMD5 @ [0x0A]"

definition newSocket :: invitation where
  "newSocket = \<lparr>now = 0, attempts = 0, sendCalls = [], listening = False, closed = False,
                timer = None, outcome = Pending\<rparr>"

definition sendInvitation ::
  "bool \<Rightarrow> jsstring \<Rightarrow> nat \<Rightarrow> nat \<Rightarrow> nat \<Rightarrow> jsstring \<Rightarrow> nat \<Rightarrow> (nat \<times> udp_event) list
     \<Rightarrow> invitation" where
  "sendInvitation throws ip port localPort fileSize fileMD5 command events =
     (let u = \<lparr>closedSendThrows = throws, espIP = ip, espPort = port,
                message = invitationMessage command localPort fileSize fileMD5\<rparr>
      in drain u (feed u events (sendAttempt u newSocket)))"

definition FLASH :: nat where
  "FLASH = 0"

definition SPIFFS :: nat where
  "SPIFFS = 100"

definition AUTH :: nat where
  "AUTH = 200"

section \<open>The connectivity probe: \<^verbatim>\<open>testConnection\<close>\<close>


section \<open>The TCP transfer: \<^verbatim>\<open>sendFile\<close>\<close>

type_synonym byte = "8 word"

record UploadResult =
  uploadSuccess :: bool
  uploadMessage :: "jsstring option"
  uploadFileSize :: "nat option"
  uploadFileMD5 :: "jsstring option"

text \<open>\<^verbatim>\<open>buffer.slice(a, b)\<close> for \<open>0 \<le> a \<le> b\<close>: the bytes from \<open>a\<close> up to \<open>b\<close>, as far
  as the buffer goes.\<close>

definition slice :: "byte list \<Rightarrow> nat \<Rightarrow> nat \<Rightarrow> byte list" where
  "slice buffer a b = take (b - a) (drop a buffer)"

definition chunkSize :: nat where
  "chunkSize = 1024"

text \<open>
  The server callback runs once for every connection the listener accepts, each time with
  variables of its own. \<open>conn\<close> is the state of one such run: the counter
  \<^verbatim>\<open>uploadedBytes\<close>, the chunks handed to \<^verbatim>\<open>socket.write\<close>, the chunk size that the write
  callback still to come has captured, whether a \<^verbatim>\<open>once('data')\<close> listener is attached,
  and whether \<^verbatim>\<open>socket.end()\<close> was called. Two fields only record history: \<open>uploadedLog\<close>
  holds the successive values of the counter (those of the "Uploaded:" log lines), \<open>acked\<close>
  counts the acknowledgments after which the transfer went on.
\<close>

record conn =
  uploadedBytes :: nat
  written :: "byte list list"
  pendingWrite :: "nat option"
  awaitingData :: bool
  ended :: bool
  uploadedLog :: "nat list"
  acked :: nat

datatype timeout = Watchdog | ChunkDelay nat

text \<open>
  The state of one \<^verbatim>\<open>sendFile\<close> call: the clock (ms since the call), the listener
  (\<open>serverClosed\<close>: \<^verbatim>\<open>server.close()\<close> was called), the connections in the order of
  their arrival, the pending \<^verbatim>\<open>setTimeout\<close>s with their deadlines in firing order, the
  promise, and the clock at the moment it settled.
\<close>

record transfer =
  clock :: nat
  listenPort :: nat
  serverClosed :: bool
  conns :: "conn list"
  timers :: "(nat \<times> timeout) list"
  promise :: "UploadResult promise"
  settledAt :: "nat option"

definition resolveT :: "UploadResult \<Rightarrow> transfer \<Rightarrow> transfer" where
  "resolveT r s =
     s\<lparr>promise := settle (Fulfilled r) (promise s),
       settledAt := (if promise s = Pending then Some (clock s) else settledAt s)\<rparr>"

definition rejectT :: "error \<Rightarrow> transfer \<Rightarrow> transfer" where
  "rejectT e s =
     s\<lparr>promise := settle (Rejected e) (promise s),
       settledAt := (if promise s = Pending then Some (clock s) else settledAt s)\<rparr>"

text \<open>\<^verbatim>\<open>setTimeout\<close>: timers fire by deadline, and in the order of their creation when the
  deadlines are equal.\<close>

fun setTimeout :: "nat \<times> timeout \<Rightarrow> (nat \<times> timeout) list \<Rightarrow> (nat \<times> timeout) list" where
  "setTimeout x [] = [x]"
| "setTimeout x (y # ys) = (if fst y \<le> fst x then y # setTimeout x ys else x # y # ys)"

definition sendChunk :: "nat \<Rightarrow> byte list \<Rightarrow> nat \<Rightarrow> transfer \<Rightarrow> transfer" where
  "sendChunk fileSize buffer i s =
     (let c = conns s ! i
      in if uploadedBytes c \<ge> fileSize then
           resolveT \<lparr>uploadSuccess = True,
                     uploadMessage = Some (js ''Upload completed successfully''),
                     uploadFileSize = Some fileSize, uploadFileMD5 = None\<rparr>
             (s\<lparr>conns := (conns s)[i := c\<lparr>ended := True\<rparr>], serverClosed := True\<rparr>)
         else
           let remainingBytes = fileSize - uploadedBytes c;
               currentChunkSize = min chunkSize remainingBytes;
               chunk = slice buffer (uploadedBytes c) (uploadedBytes c + currentChunkSize)
           in s\<lparr>conns := (conns s)[i := c\<lparr>written := written c @ [chunk],
                                           pendingWrite := Some currentChunkSize\<rparr>]\<rparr>)"

text \<open>The callback of \<^verbatim>\<open>socket.write\<close>, called once for the write that is outstanding.\<close>

definition writeCallback :: "nat \<Rightarrow> jsstring option \<Rightarrow> transfer \<Rightarrow> transfer" where
  "writeCallback i err s =
     (let c = conns s ! i
      in case pendingWrite c of
           None \<Rightarrow> s
         | Some currentChunkSize \<Rightarrow>
             (case err of
                Some e \<Rightarrow>
                  rejectT (LibError e)
                    (s\<lparr>conns := (conns s)[i := c\<lparr>pendingWrite := None\<rparr>],
                       serverClosed := True\<rparr>)
              | None \<Rightarrow>
                  s\<lparr>conns := (conns s)[i := c\<lparr>pendingWrite := None,
                       uploadedBytes := uploadedBytes c + currentChunkSize,
                       uploadedLog := uploadedLog c @ [uploadedBytes c + currentChunkSize],
                       awaitingData := True\<rparr>]\<rparr>))"

definition positiveAck :: "jsstring \<Rightarrow> bool" where
  "positiveAck responseStr \<longleftrightarrow> includes_str responseStr (js ''OK'') \<or> responseStr = []"

text \<open>The \<^verbatim>\<open>once('data')\<close> listener: it is detached when it runs.\<close>

definition dataListener :: "nat \<Rightarrow> jsstring \<Rightarrow> transfer \<Rightarrow> transfer" where
  "dataListener i response s =
     (let c = conns s ! i;
          responseStr = trim response;
          s1 = s\<lparr>conns := (conns s)[i := c\<lparr>awaitingData := False\<rparr>]\<rparr>
      in if positiveAck responseStr then
           s1\<lparr>conns := (conns s)[i := c\<lparr>awaitingData := False, acked := acked c + 1\<rparr>],
              timers := setTimeout (clock s + 10, ChunkDelay i) (timers s)\<rparr>
         else rejectT (UploadFailed responseStr) (s1\<lparr>serverClosed := True\<rparr>))"

definition socketErrorListener :: "jsstring \<Rightarrow> transfer \<Rightarrow> transfer" where
  "socketErrorListener err s = rejectT (LibError err) (s\<lparr>serverClosed := True\<rparr>)"

definition serverErrorListener :: "jsstring \<Rightarrow> transfer \<Rightarrow> transfer" where
  "serverErrorListener err s = rejectT (LibError err) s"

definition watchdog :: "transfer \<Rightarrow> transfer" where
  "watchdog s = rejectT ServerTimeout (s\<lparr>serverClosed := True\<rparr>)"

definition newConn :: conn where
  "newConn = \<lparr>uploadedBytes = 0, written = [], pendingWrite = None, awaitingData = False,
              ended = False, uploadedLog = [], acked = 0\<rparr>"

text \<open>The callback given to \<^verbatim>\<open>createServer\<close>.\<close>

definition connectionListener :: "nat \<Rightarrow> byte list \<Rightarrow> transfer \<Rightarrow> transfer" where
  "connectionListener fileSize buffer s =
     sendChunk fileSize buffer (length (conns s)) (s\<lparr>conns := conns s @ [newConn]\<rparr>)"

text \<open>
  What the sockets emit is the environment's choice: \<open>Connection\<close> (the listener accepts a
  connection), and for the connection with index \<open>i\<close>: \<open>WriteDone i err\<close> (the write
  callback), \<open>Data i payload\<close> and \<open>SocketError i err\<close>; \<open>ServerError err\<close> is the
  listener's \<^verbatim>\<open>'error'\<close>. An event for a connection that does not exist is dropped, as is
  \<^verbatim>\<open>'data'\<close> without a listener; so the callbacks only ever index a connection that
  exists (a chunk timer is created for an existing connection, and connections are never
  removed).
\<close>

datatype tcp_event =
    Connection
  | WriteDone nat "jsstring option"
  | Data nat jsstring
  | SocketError nat jsstring
  | ServerError jsstring

fun emit :: "nat \<Rightarrow> byte list \<Rightarrow> tcp_event \<Rightarrow> transfer \<Rightarrow> transfer" where
  "emit fileSize buffer Connection s = connectionListener fileSize buffer s"
| "emit fileSize buffer (WriteDone i err) s =
     (if i < length (conns s) then writeCallback i err s else s)"
| "emit fileSize buffer (Data i payload) s =
     (if i < length (conns s) \<and> awaitingData (conns s ! i) then dataListener i payload s
      else s)"
| "emit fileSize buffer (SocketError i err) s =
     (if i < length (conns s) then socketErrorListener err s else s)"
| "emit fileSize buffer (ServerError err) s = serverErrorListener err s"

definition timeoutT :: "nat \<Rightarrow> byte list \<Rightarrow> timeout \<Rightarrow> transfer \<Rightarrow> transfer" where
  "timeoutT fileSize buffer k s =
     (case k of Watchdog \<Rightarrow> watchdog s | ChunkDelay i \<Rightarrow> sendChunk fileSize buffer i s)"

text \<open>The first pending timer fires at its deadline.\<close>

definition fireT :: "nat \<Rightarrow> byte list \<Rightarrow> transfer \<Rightarrow> transfer" where
  "fireT fileSize buffer s =
     (case timers s of
        [] \<Rightarrow> s
      | (d, k) # rest \<Rightarrow> timeoutT fileSize buffer k (s\<lparr>clock := d, timers := rest\<rparr>))"

function advanceT :: "nat \<Rightarrow> byte list \<Rightarrow> nat \<Rightarrow> transfer \<Rightarrow> transfer" where
  "advanceT fileSize buffer t s =
     (case timers s of
        [] \<Rightarrow> s\<lparr>clock := t\<rparr>
      | (d, k) # rest \<Rightarrow>
          if d \<le> t then advanceT fileSize buffer t (fireT fileSize buffer s)
          else s\<lparr>clock := t\<rparr>)"
  by pat_completeness auto
termination
  by (relation "measure (\<lambda>(fileSize, buffer, t, s). length (timers s))")
     (auto simp: fireT_def timeoutT_def watchdog_def sendChunk_def rejectT_def
           resolveT_def Let_def split: timeout.splits)

declare advanceT.simps [simp del]

function drainT :: "nat \<Rightarrow> byte list \<Rightarrow> transfer \<Rightarrow> transfer" where
  "drainT fileSize buffer s =
     (case timers s of
        [] \<Rightarrow> s
      | (d, k) # rest \<Rightarrow> drainT fileSize buffer (fireT fileSize buffer s))"
  by pat_completeness auto
termination
  by (relation "measure (\<lambda>(fileSize, buffer, s). length (timers s))")
     (auto simp: fireT_def timeoutT_def watchdog_def sendChunk_def rejectT_def
           resolveT_def Let_def split: timeout.splits)

declare drainT.simps [simp del]

fun feedT :: "nat \<Rightarrow> byte list \<Rightarrow> (nat \<times> tcp_event) list \<Rightarrow> transfer \<Rightarrow> transfer" where
  "feedT fileSize buffer [] s = s"
| "feedT fileSize buffer ((dt, e) # es) s =
     feedT fileSize buffer es
       (emit fileSize buffer e (advanceT fileSize buffer (clock s + dt) s))"

text \<open>No timer is due by \<open>t\<close>: the condition under which the clock is set to \<open>t\<close>.\<close>

definition quiet_until :: "nat \<Rightarrow> transfer \<Rightarrow> bool" where
  "quiet_until t s = (case timers s of [] \<Rightarrow> True | (d, k) # rest \<Rightarrow> t < d)"

text \<open>
  The invariant of a session with respect to the watchdog. \<open>watchdogArmed\<close>: the watchdog
  is pending with deadline 60000, and only chunk timers due before that come before it.
  \<open>beforeWatchdog\<close>: it has not fired yet; the clock is below 60000 and the promise, if
  settled, settled before 60000 and not by the watchdog. \<open>afterWatchdog\<close>: the listener is
  closed and the promise is settled, at 60000 exactly when by the watchdog.
\<close>

fun watchdogArmed :: "(nat \<times> timeout) list \<Rightarrow> bool" where
  "watchdogArmed [] = False"
| "watchdogArmed ((d, k) # rest) =
     (if k = Watchdog then d = 60000 else d < 60000 \<and> watchdogArmed rest)"

definition beforeWatchdog :: "transfer \<Rightarrow> bool" where
  "beforeWatchdog s \<longleftrightarrow>
     watchdogArmed (timers s) \<and> clock s < 60000 \<and> promise s \<noteq> Rejected ServerTimeout \<and>
     (case settledAt s of None \<Rightarrow> promise s = Pending
      | Some t \<Rightarrow> t < 60000 \<and> promise s \<noteq> Pending)"

definition afterWatchdog :: "transfer \<Rightarrow> bool" where
  "afterWatchdog s \<longleftrightarrow>
     serverClosed s \<and> promise s \<noteq> Pending \<and>
     (case settledAt s of None \<Rightarrow> False
      | Some t \<Rightarrow> t \<le> 60000 \<and> (promise s = Rejected ServerTimeout) = (t = 60000))"

text \<open>
  The invariant of the connections. A chunk timer is pending for a connection at most
  once, and then nothing of that connection is outstanding: no write, no listener for
  data, and as many chunks written as acknowledged. While a write or its acknowledgment
  is outstanding, one chunk more is written than acknowledged. Never more than that.
\<close>

definition inFlight :: "transfer \<Rightarrow> bool" where
  "inFlight s \<longleftrightarrow>
     distinct (map snd (timers s)) \<and>
     (\<forall>i. ChunkDelay i \<in> snd ` set (timers s) \<longrightarrow>
        i < length (conns s) \<and> \<not> awaitingData (conns s ! i) \<and>
        pendingWrite (conns s ! i) = None \<and>
        length (written (conns s ! i)) = acked (conns s ! i)) \<and>
     (\<forall>i<length (conns s).
        length (written (conns s ! i)) \<le> acked (conns s ! i) + 1 \<and>
        (awaitingData (conns s ! i) \<longrightarrow>
           pendingWrite (conns s ! i) = None \<and>
           length (written (conns s ! i)) = acked (conns s ! i) + 1) \<and>
        (pendingWrite (conns s ! i) \<noteq> None \<longrightarrow>
           length (written (conns s ! i)) = acked (conns s ! i) + 1))"

text \<open>
  A transfer in which the device connects once (after \<open>d0\<close> ms) and every chunk is
  confirmed and acknowledged: for each round \<open>(dw, da, ack)\<close> the write callback comes
  \<open>dw\<close> ms after the chunk was handed to the socket and the acknowledgment \<open>ack\<close>
  \<open>da\<close> ms later. From the second round on, the chunk is handed to the socket 10 ms
  after the acknowledgment before it.
\<close>

fun ackedRounds :: "nat \<Rightarrow> (nat \<times> nat \<times> jsstring) list \<Rightarrow> (nat \<times> tcp_event) list" where
  "ackedRounds gap [] = []"
| "ackedRounds gap ((dw, da, ack) # rounds) =
     (gap + dw, WriteDone 0 None) # (da, Data 0 ack) # ackedRounds 10 rounds"

text \<open>
  The pending timers along such a transfer: only watchdogs (\<open>onlyWatchdogs\<close>), or
  watchdogs and one chunk timer of connection \<open>i\<close> that fires when the time reaches
  \<open>t\<close> (\<open>chunkDue\<close>). The connection itself: \<open>connWriting\<close> when chunk \<open>j\<close> has been
  handed to the socket, \<open>connAcked\<close> when \<open>j\<close> chunks have been acknowledged.
\<close>

fun onlyWatchdogs :: "(nat \<times> timeout) list \<Rightarrow> bool" where
  "onlyWatchdogs [] = True"
| "onlyWatchdogs ((d, k) # rest) = (k = Watchdog \<and> onlyWatchdogs rest)"

fun chunkDue :: "nat \<Rightarrow> nat \<Rightarrow> (nat \<times> timeout) list \<Rightarrow> bool" where
  "chunkDue t i [] = False"
| "chunkDue t i ((d, k) # rest) =
     (d \<le> t \<and> (if k = Watchdog then chunkDue t i rest
               else k = ChunkDelay i \<and> onlyWatchdogs rest))"

definition chunkOf :: "nat \<Rightarrow> byte list \<Rightarrow> nat \<Rightarrow> byte list" where
  "chunkOf fileSize buffer k =
     slice buffer (chunkSize * k) (chunkSize * k + min chunkSize (fileSize - chunkSize * k))"

definition connAcked :: "nat \<Rightarrow> byte list \<Rightarrow> nat \<Rightarrow> bool \<Rightarrow> conn" where
  "connAcked fileSize buffer j e =
     \<lparr>uploadedBytes = min fileSize (chunkSize * j),
      written = map (chunkOf fileSize buffer) [0..<j],
      pendingWrite = None, awaitingData = False, ended = e,
      uploadedLog = map (\<lambda>k. min fileSize (chunkSize * Suc k)) [0..<j],
      acked = j\<rparr>"

definition connWriting :: "nat \<Rightarrow> byte list \<Rightarrow> nat \<Rightarrow> conn" where
  "connWriting fileSize buffer j =
     \<lparr>uploadedBytes = chunkSize * j,
      written = map (chunkOf fileSize buffer) [0..<Suc j],
      pendingWrite = Some (min chunkSize (fileSize - chunkSize * j)),
      awaitingData = False, ended = False,
      uploadedLog = map (\<lambda>k. min fileSize (chunkSize * Suc k)) [0..<j],
      acked = j\<rparr>"

definition newServer :: "nat \<Rightarrow> transfer" where
  "newServer localPort =
     \<lparr>clock = 0, listenPort = localPort, serverClosed = False, conns = [],
      timers = [(60000, Watchdog)], promise = Pending, settledAt = None\<rparr>"

text \<open>\<^verbatim>\<open>Buffer.from(fileContent, 'base64')\<close> belongs to a library: the decoder is the
  parameter \<open>decode\<close>.\<close>

definition sendFile ::
  "(jsstring \<Rightarrow> byte list) \<Rightarrow> nat \<Rightarrow> jsstring \<Rightarrow> nat \<Rightarrow> (nat \<times> tcp_event) list \<Rightarrow> transfer"
  where
  "sendFile decode localPort fileContent fileSize events =
     drainT fileSize (decode fileContent)
       (feedT fileSize (decode fileContent) events (newServer localPort))"

section \<open>The upload: \<^verbatim>\<open>uploadFirmware\<close>\<close>

text \<open>
  What the upload takes from outside the service: the results of \<^verbatim>\<open>RNFS.stat\<close> and
  \<^verbatim>\<open>RNFS.readFile\<close> for the file (each may reject, \<open>Inl\<close> with the message), the
  digest function of \<^verbatim>\<open>CryptoJS.MD5\<close>, the base64 decoder, the number
  \<^verbatim>\<open>Math.random()\<close> returns, and the events of both phases. The password is not used
  by the code. \<^verbatim>\<open>Math.random() * 50000\<close> is computed on the reals here; a supplementary
  lemma covers the rounding of the floating-point product.
\<close>

record environment =
  statSize :: "jsstring + nat"
  readFile :: "jsstring + jsstring"
  md5 :: "jsstring \<Rightarrow> jsstring"
  base64 :: "jsstring \<Rightarrow> byte list"
  random :: real
  sendThrows :: bool
  udpEvents :: "(nat \<times> udp_event) list"
  tcpEvents :: "(nat \<times> tcp_event) list"

definition randomPort :: "real \<Rightarrow> nat" where
  "randomPort r = nat \<lfloor>r * 50000\<rfloor> + 10000"

text \<open>The promise \<^verbatim>\<open>uploadFirmware\<close> returns, with the two phases as far as they ran.\<close>

record upload =
  invitationRun :: "invitation option"
  transferRun :: "transfer option"
  returned :: "UploadResult promise"

definition uploadFirmware ::
  "environment \<Rightarrow> jsstring \<Rightarrow> nat \<Rightarrow> jsstring \<Rightarrow> jsstring \<Rightarrow> upload" where
  "uploadFirmware env ip port filePath password =
     (case statSize env of
        Inl e \<Rightarrow>
          \<lparr>invitationRun = None, transferRun = None, returned = Rejected (LibError e)\<rparr>
      | Inr fileSize \<Rightarrow>
     (case readFile env of
        Inl e \<Rightarrow>
          \<lparr>invitationRun = None, transferRun = None, returned = Rejected (LibError e)\<rparr>
      | Inr fileContent \<Rightarrow>
     (let fileMD5 = md5 env fileContent;
          localPort = randomPort (random env);
          inv = sendInvitation (sendThrows env) ip port localPort fileSize fileMD5 FLASH
                  (udpEvents env)
      in case outcome inv of
           Pending \<Rightarrow> \<lparr>invitationRun = Some inv, transferRun = None, returned = Pending\<rparr>
         | Rejected e \<Rightarrow>
             \<lparr>invitationRun = Some inv, transferRun = None, returned = Rejected e\<rparr>
         | Fulfilled invitationResult \<Rightarrow>
             if \<not> success invitationResult then
               \<lparr>invitationRun = Some inv, transferRun = None,
                returned = Rejected InvitationFailed\<rparr>
             else
               let xfer = sendFile (base64 env) localPort fileContent fileSize (tcpEvents env)
               in \<lparr>invitationRun = Some inv, transferRun = Some xfer,
                   returned =
                     (case promise xfer of
                        Pending \<Rightarrow> Pending
                      | Rejected e \<Rightarrow> Rejected e
                      | Fulfilled uploadResult \<Rightarrow>
                          Fulfilled \<lparr>uploadSuccess = True,
                            uploadMessage = Some (js ''Firmware uploaded successfully''),
                            uploadFileSize = Some fileSize,
                            uploadFileMD5 = Some fileMD5\<rparr>)\<rparr>)))"


section \<open>Properties of the invitation\<close>

subsection \<open>Running the timers\<close>

lemma settle_if: "settle v p = (if p = Pending then v else p)"
  by (cases p) simp_all

lemma advance_due: "timer s = Some d \<Longrightarrow> d \<le> t \<Longrightarrow> advance u t s = advance u t (fire u d s)"
  by (subst advance.simps) simp
lemma advance_idle: "timer s = None \<Longrightarrow> advance u t s = s\<lparr>now := t\<rparr>"
  by (subst advance.simps) simp
lemma advance_early: "timer s = Some d \<Longrightarrow> t < d \<Longrightarrow> advance u t s = s\<lparr>now := t\<rparr>"
  by (subst advance.simps) simp
lemma drain_due: "timer s = Some d \<Longrightarrow> drain u s = drain u (fire u d s)"
  by (subst drain.simps) simp
lemma drain_idle: "timer s = None \<Longrightarrow> drain u s = s"
  by (subst drain.simps) simp

lemmas udp_defs = sendAttempt_def fire_def timeoutCallback_def
  responseHandler_def resolve_def reject_def maxAttempts_def Let_def

lemmas run_simps = advance_due advance_idle advance_early drain_due drain_idle
  sendInvitation_def newSocket_def udp_defs

lemma advance_preserves:
  assumes "P s"
    and "\<And>s d. P s \<Longrightarrow> P (fire u d s)"
    and "\<And>s t. P s \<Longrightarrow> P (s\<lparr>now := t\<rparr>)"
  shows "P (advance u t s)"
  using assms
proof (induction u t s rule: advance.induct)
  case (1 u t s)
  show ?case
  proof (cases "timer s")
    case None
    then show ?thesis using 1 by (simp add: advance_idle)
  next
    case (Some d)
    show ?thesis
    proof (cases "d \<le> t")
      case True
      have "P (advance u t (fire u d s))"
        using Some True 1 by blast
      then show ?thesis using Some True by (simp add: advance_due)
    next
      case False
      then show ?thesis using Some 1 by (simp add: advance_early)
    qed
  qed
qed

lemma drain_preserves:
  assumes "P s"
    and "\<And>s d. P s \<Longrightarrow> P (fire u d s)"
  shows "P (drain u s)"
  using assms
proof (induction u s rule: drain.induct)
  case (1 u s)
  show ?case
  proof (cases "timer s")
    case None
    then show ?thesis using 1 by (simp add: drain_idle)
  next
    case (Some d)
    have "P (drain u (fire u d s))"
      using Some 1 by blast
    then show ?thesis using Some by (simp add: drain_due)
  qed
qed

lemma feed_preserves:
  assumes "P s"
    and "\<And>s d. P s \<Longrightarrow> P (fire u d s)"
    and "\<And>s t. P s \<Longrightarrow> P (s\<lparr>now := t\<rparr>)"
    and "\<And>s e. e \<in> snd ` set es \<Longrightarrow> P s \<Longrightarrow> P (deliver e s)"
  shows "P (feed u es s)"
  using assms
proof (induction es arbitrary: s)
  case Nil
  then show ?case by simp
next
  case (Cons a es)
  obtain dt e where a: "a = (dt, e)" by (cases a)
  have "P (advance u (now s + dt) s)"
    using Cons.prems(1,2,3) by (rule advance_preserves)
  then have "P (deliver e (advance u (now s + dt) s))"
    using Cons.prems(4) a by simp
  then have "P (feed u es (deliver e (advance u (now s + dt) s)))"
    using Cons.prems by (intro Cons.IH) auto
  then show ?case by (simp add: a)
qed

text \<open>What the callbacks preserve holds after the whole call.\<close>

lemma run_preserves:
  assumes init: "P s"
    and fire: "\<And>s d. P s \<Longrightarrow> P (fire u d s)"
    and tick: "\<And>s t. P s \<Longrightarrow> P (s\<lparr>now := t\<rparr>)"
    and event: "\<And>s e. e \<in> snd ` set es \<Longrightarrow> P s \<Longrightarrow> P (deliver e s)"
  shows "P (drain u (feed u es s))"
proof -
  have "P (feed u es s)"
    using init fire tick event by (rule feed_preserves [where P = P])
  then show ?thesis
    using fire by (rule drain_preserves [where P = P])
qed

lemma sendInvitation_preserves:
  assumes "\<And>u. P (sendAttempt u newSocket)"
    and "\<And>u s d. P s \<Longrightarrow> P (fire u d s)"
    and "\<And>s t. P s \<Longrightarrow> P (s\<lparr>now := t\<rparr>)"
    and "\<And>s e. e \<in> snd ` set es \<Longrightarrow> P s \<Longrightarrow> P (deliver e s)"
  shows "P (sendInvitation th ip port lp sz md cmd es)"
  unfolding sendInvitation_def Let_def
  using assms by (rule run_preserves [where P = P])


subsection \<open>Invariants of the invitation\<close>

lemma fulfilled_success:
  "outcome (sendInvitation th ip port lp sz md cmd es) = Fulfilled r \<Longrightarrow> success r"
proof -
  let ?P = "\<lambda>s::invitation. \<forall>r. outcome s = Fulfilled r \<longrightarrow> success r"
  have "?P (sendInvitation th ip port lp sz md cmd es)"
  proof (rule sendInvitation_preserves [where P = ?P])
    fix s e assume "?P s"
    then show "?P (deliver e s)"
      by (cases e) (auto simp: udp_defs settle_if)
  qed (auto simp: udp_defs newSocket_def settle_if)
  then show "outcome (sendInvitation th ip port lp sz md cmd es) = Fulfilled r \<Longrightarrow> success r"
    by blast
qed

lemma never_InvitationFailed:
  "outcome (sendInvitation th ip port lp sz md cmd es) \<noteq> Rejected InvitationFailed"
proof (rule sendInvitation_preserves [where P = "\<lambda>s. outcome s \<noteq> Rejected InvitationFailed"])
  fix s :: invitation and e assume "outcome s \<noteq> Rejected InvitationFailed"
  then show "outcome (deliver e s) \<noteq> Rejected InvitationFailed"
    by (cases e) (auto simp: udp_defs settle_if)
qed (auto simp: udp_defs newSocket_def settle_if)


lemma sendCalls_message:
  "c \<in> set (sendCalls (sendInvitation th ip port lp sz md cmd es)) \<Longrightarrow>
     snd c = (invitationMessage cmd lp sz md, port, ip)"
proof -
  define u :: udp where "u = \<lparr>closedSendThrows = th, espIP = ip, espPort = port,
                message = invitationMessage cmd lp sz md\<rparr>"
  let ?P = "\<lambda>s::invitation. \<forall>c\<in>set (sendCalls s). snd c = (message u, espPort u, espIP u)"
  have "?P (drain u (feed u es (sendAttempt u newSocket)))"
  proof (rule run_preserves [where P = ?P])
    fix s e assume "?P s"
    then show "?P (deliver e s)"
      by (cases e) (auto simp: udp_defs settle_if)
  qed (auto simp: udp_defs newSocket_def settle_if)
  then show "c \<in> set (sendCalls (sendInvitation th ip port lp sz md cmd es)) \<Longrightarrow>
     snd c = (invitationMessage cmd lp sz md, port, ip)"
    by (simp add: sendInvitation_def u_def Let_def)
qed


lemma settled_stays:
  assumes "outcome s = v" "v \<noteq> Pending"
  shows "outcome (drain u (feed u es s)) = v"
proof (rule run_preserves [where P = "\<lambda>s. outcome s = v"])
  fix s :: invitation and e assume "outcome s = v"
  then show "outcome (deliver e s) = v"
    using assms(2) by (cases e) (auto simp: udp_defs settle_if)
qed (use assms in \<open>auto simp: udp_defs settle_if\<close>)



text \<open>While fewer than ten seconds have passed without an event, the handler of the
  current attempt is attached and the promise is pending.\<close>

lemma advance_waiting:
  assumes "listening s" "outcome s = Pending" "\<not> closed s"
    and "timer s = Some (1000 * attempts s)" "t < 10000"
  shows "listening (advance u t s) \<and> outcome (advance u t s) = Pending"
  using assms
proof (induction u t s rule: advance.induct)
  case (1 u t s)
  show ?case
  proof (cases "1000 * attempts s \<le> t")
    case True
    let ?s = "fire u (1000 * attempts s) s"
    have less: "attempts s < maxAttempts"
      using True 1(6) by (simp add: maxAttempts_def)
    have "listening (advance u t ?s) \<and> outcome (advance u t ?s) = Pending"
    proof (rule 1(1) [OF 1(5) True])
      show "listening ?s" "outcome ?s = Pending" "\<not> closed ?s"
        "timer ?s = Some (1000 * attempts ?s)"
        using less 1(2,3,4) by (simp_all add: fire_def timeoutCallback_def sendAttempt_def)
    qed (rule 1(6))
    then show ?thesis
      using 1(5) True by (simp add: advance_due)
  next
    case False
    then show ?thesis
      using 1 by (simp add: advance_early)
  qed
qed


subsection \<open>The reply grammar\<close>

text \<open>
  Claim C1, as the code has it. Let a reply be the first event of the call and arrive
  before the tenth timer has run out (\<open>dt < 10000\<close> ms). The reply text is trimmed first.
  If the trimmed text is exactly "OK" the promise is fulfilled as accepted; if it begins
  with "AUTH" (a following space is not required) it is fulfilled as needing
  authentication, the nonce being the second piece of the trimmed text cut at every single
  space, or absent when there is no space; any other text rejects the promise with an
  error that carries the trimmed text. Whatever events follow, the outcome stays.
\<close>

theorem first_reply_decides:
  assumes "dt < 10000"
  shows "outcome (sendInvitation th ip port lp sz md cmd ((dt, Reply data) # es)) =
     (if trim data = js ''OK'' then
        Fulfilled \<lparr>success = True, needsAuth = False, nonce = None\<rparr>
      else if startsWith (trim data) (js ''AUTH'') then
        Fulfilled \<lparr>success = True, needsAuth = True,
                    nonce = index_opt (split 0x20 (trim data)) 1\<rparr> 
      else Rejected (BadResponse (trim data)))" (is "_ = ?v")
proof -
  define u :: udp where "u = \<lparr>closedSendThrows = th, espIP = ip, espPort = port,
                message = invitationMessage cmd lp sz md\<rparr>"
  define s1 where "s1 = advance u dt (sendAttempt u newSocket)"
  have s1: "listening s1 \<and> outcome s1 = Pending"
    unfolding s1_def using assms
    by (intro advance_waiting) (simp_all add: sendAttempt_def newSocket_def)
  then have "outcome (deliver (Reply data) s1) = ?v"
    by (simp add: responseHandler_def resolve_def reject_def Let_def)
  moreover have "?v \<noteq> Pending"
    by simp
  ultimately have "outcome (drain u (feed u es (deliver (Reply data) s1))) = ?v"
    by (rule settled_stays)
  moreover have "sendInvitation th ip port lp sz md cmd ((dt, Reply data) # es) =
      drain u (feed u es (deliver (Reply data) s1))"
    by (simp add: sendInvitation_def Let_def u_def [symmetric] s1_def sendAttempt_def
        newSocket_def del: deliver.simps)
  ultimately show ?thesis
    by (simp only:)
qed


text \<open>The reply "AUTH abc123" after 300 ms gives the nonce "abc123".\<close>

theorem first_reply_decides_witness:
  "(300::nat) < 10000 \<and>
   outcome (sendInvitation False (js ''192.168.1.100'') 3232 40000 2500 (js ''d41d'') FLASH
     [(300, Reply (js ''AUTH abc123''))]) =
   Fulfilled \<lparr>success = True, needsAuth = True, nonce = Some (js ''abc123'')\<rparr>"
proof -
  have h: "(300::nat) < 10000" by simp
  show ?thesis
    using h first_reply_decides [OF h, of False "js ''192.168.1.100''" 3232 40000 2500
        "js ''d41d''" FLASH "js ''AUTH abc123''" "[]"]
    by (simp add: js_def trim_def isWhiteSpace_def index_opt_def)
qed


text \<open>The reply "AUTHX" is not "OK" and does not begin with "AUTH " (with the space), yet
  the call is fulfilled as needing authentication, without a nonce, instead of failing.\<close>

theorem grammar_counterexample:
  "js ''AUTHX'' \<noteq> js ''OK'' \<and> \<not> startsWith (js ''AUTHX'') (js ''AUTH '') \<and>
   outcome (sendInvitation False (js ''192.168.1.100'') 3232 40000 2500 (js ''d41d'') FLASH
     [(300, Reply (js ''AUTHX''))]) =
   Fulfilled \<lparr>success = True, needsAuth = True, nonce = None\<rparr>"
  by (simp add: run_simps js_def trim_def isWhiteSpace_def index_opt_def settle_if)


subsection \<open>Retry and timeout\<close>




text \<open>
  Claim C7, which the code breaks. The reply "OK" 300 ms after the first send fulfils the
  promise as accepted, after one attempt, and closes the socket; but the timer of that
  attempt is still pending (first part). It is never cleared: when it fires, the counter
  is below ten, so \<^verbatim>\<open>sendAttempt\<close> runs again on the closed socket. If \<^verbatim>\<open>socket.send\<close>
  throws there, the run ends with two calls of \<^verbatim>\<open>socket.send\<close>; if not, with ten, one
  every second (second part). The promise keeps its first outcome.
\<close>

theorem resend_after_accept:
  "(let u = \<lparr>closedSendThrows = th, espIP = ip, espPort = port, message = m\<rparr>;
        s = feed u [(300, Reply (js ''OK''))] (sendAttempt u newSocket)
    in attempts s = 1 \<and> closed s \<and> timer s = Some 1000 \<and>
       outcome s = Fulfilled \<lparr>success = True, needsAuth = False, nonce = None\<rparr>) \<and>
   (let s = sendInvitation th ip port lp sz md cmd [(300, Reply (js ''OK''))]
    in outcome s = Fulfilled \<lparr>success = True, needsAuth = False, nonce = None\<rparr> \<and>
       attempts s = (if th then 2 else 10) \<and>
       map fst (sendCalls s) =
         (if th then [0, 1000]
          else [0, 1000, 2000, 3000, 4000, 5000, 6000, 7000, 8000, 9000]))"
  by (cases th) (simp_all add: run_simps js_def trim_def isWhiteSpace_def settle_if)


subsection \<open>The connectivity probe\<close>






section \<open>Properties of the strings\<close>

text \<open>\<^verbatim>\<open>startsWith\<close> is "is a prefix", \<^verbatim>\<open>includes\<close> is "occurs somewhere".\<close>

lemma startsWith_iff: "startsWith s p \<longleftrightarrow> (\<exists>b. s = p @ b)"
  by (induction s p rule: startsWith.induct) auto

lemma includes_str_iff: "includes_str s p \<longleftrightarrow> (\<exists>a b. s = a @ p @ b)"
proof (induction s)
  case Nil
  then show ?case by auto
next
  case (Cons c cs)
  show ?case
  proof
    assume "includes_str (c # cs) p"
    then consider "startsWith (c # cs) p" | "includes_str cs p" by auto
    then show "\<exists>a b. c # cs = a @ p @ b"
    proof cases
      case 1
      then obtain b where "c # cs = p @ b" by (auto simp: startsWith_iff)
      then have "c # cs = [] @ p @ b" by simp
      then show ?thesis by blast
    next
      case 2
      then obtain a b where "cs = a @ p @ b" using Cons.IH by blast
      then have "c # cs = (c # a) @ p @ b" by simp
      then show ?thesis by blast
    qed
  next
    assume "\<exists>a b. c # cs = a @ p @ b"
    then obtain a b where ab: "c # cs = a @ p @ b" by blast
    show "includes_str (c # cs) p"
    proof (cases a)
      case Nil
      then have "startsWith (c # cs) p" using ab by (auto simp: startsWith_iff)
      then show ?thesis by simp
    next
      case (Cons x a')
      then have "cs = a' @ p @ b" using ab by simp
      then have "includes_str cs p" using Cons.IH by blast
      then show ?thesis by simp
    qed
  qed
qed

lemma dropWhile_keeps:
  assumes "\<not> P x"
  shows "\<exists>a'. dropWhile P (a @ x # r) = a' @ x # r"
proof (induction a)
  case Nil
  then show ?case using assms by simp
next
  case (Cons y a)
  then show ?case by (cases "P y") (auto intro: exI [of _ "y # a"])
qed

lemma trim_keeps:
  assumes "\<not> isWhiteSpace x" "\<not> isWhiteSpace y"
  shows "\<exists>a' b'. trim (a @ x # y # b) = a' @ x # y # b'"
proof -
  obtain a' where a': "dropWhile isWhiteSpace (a @ x # y # b) = a' @ x # y # b"
    using dropWhile_keeps [of isWhiteSpace x a "y # b"] assms(1) by blast
  have "rev (a' @ x # y # b) = rev b @ y # (x # rev a')"
    by simp
  moreover obtain b' where "dropWhile isWhiteSpace (rev b @ y # (x # rev a')) = b' @ y # (x # rev a')"
    using dropWhile_keeps [of isWhiteSpace y "rev b" "x # rev a'"] assms(2) by blast
  ultimately have "trim (a @ x # y # b) = rev (b' @ y # x # rev a')"
    by (simp add: trim_def a')
  then have "trim (a @ x # y # b) = a' @ x # y # rev b'"
    by simp
  then show ?thesis by blast
qed

lemma trim_infix: "\<exists>a b. s = a @ trim s @ b"
proof -
  have 1: "s = takeWhile isWhiteSpace s @ dropWhile isWhiteSpace s"
    by simp
  let ?d = "dropWhile isWhiteSpace s"
  have "rev ?d = takeWhile isWhiteSpace (rev ?d) @ dropWhile isWhiteSpace (rev ?d)"
    by simp
  then have "?d = trim s @ rev (takeWhile isWhiteSpace (rev ?d))"
    unfolding trim_def by (metis rev_append rev_rev_ident)
  with 1 show ?thesis by metis
qed

lemma includes_OK_trim: "includes_str (trim s) (js ''OK'') \<longleftrightarrow> includes_str s (js ''OK'')"
proof
  assume "includes_str (trim s) (js ''OK'')"
  then obtain a b where "trim s = a @ js ''OK'' @ b"
    by (auto simp: includes_str_iff)
  moreover obtain a0 b0 where "s = a0 @ trim s @ b0"
    using trim_infix by blast
  ultimately have "s = (a0 @ a) @ js ''OK'' @ (b @ b0)"
    by simp
  then show "includes_str s (js ''OK'')"
    unfolding includes_str_iff by blast
next
  assume "includes_str s (js ''OK'')"
  then obtain a b where s: "s = a @ 79 # 75 # b"
    by (auto simp: includes_str_iff js_def)
  have "\<not> isWhiteSpace 79" "\<not> isWhiteSpace 75"
    by (simp_all add: isWhiteSpace_def)
  then obtain a' b' where "trim s = a' @ 79 # 75 # b'"
    using trim_keeps s by blast
  then have "trim s = a' @ js ''OK'' @ b'"
    by (simp add: js_def)
  then show "includes_str (trim s) (js ''OK'')"
    unfolding includes_str_iff by blast
qed

lemma trim_empty: "trim s = [] \<longleftrightarrow> (\<forall>c\<in>set s. isWhiteSpace c)"
proof
  assume "trim s = []"
  then have "dropWhile isWhiteSpace (rev (dropWhile isWhiteSpace s)) = []"
    by (simp add: trim_def)
  then have "\<forall>c\<in>set (dropWhile isWhiteSpace s). isWhiteSpace c"
    by simp
  then have "dropWhile isWhiteSpace s = []"
    by (metis hd_dropWhile list.set_sel(1))
  then show "\<forall>c\<in>set s. isWhiteSpace c"
    by simp
next
  assume "\<forall>c\<in>set s. isWhiteSpace c"
  then have "dropWhile isWhiteSpace s = []"
    by simp
  then show "trim s = []"
    by (simp only: trim_def rev.simps dropWhile.simps)
qed

lemma positiveAck_trim:
  "positiveAck (trim payload) \<longleftrightarrow>
     includes_str payload (js ''OK'') \<or> (\<forall>c\<in>set payload. isWhiteSpace c)"
  by (simp add: positiveAck_def includes_OK_trim trim_empty)


section \<open>Properties of the transfer\<close>

subsection \<open>Running the timers of the transfer\<close>

lemma advanceT_due:
  "timers s = (d, k) # rest \<Longrightarrow> d \<le> t \<Longrightarrow> advanceT n b t s = advanceT n b t (fireT n b s)"
  by (subst advanceT.simps) simp
lemma advanceT_idle: "timers s = [] \<Longrightarrow> advanceT n b t s = s\<lparr>clock := t\<rparr>"
  by (subst advanceT.simps) simp
lemma advanceT_early:
  "timers s = (d, k) # rest \<Longrightarrow> t < d \<Longrightarrow> advanceT n b t s = s\<lparr>clock := t\<rparr>"
  by (subst advanceT.simps) simp
lemma drainT_due: "timers s = (d, k) # rest \<Longrightarrow> drainT n b s = drainT n b (fireT n b s)"
  by (subst drainT.simps) simp
lemma drainT_idle: "timers s = [] \<Longrightarrow> drainT n b s = s"
  by (subst drainT.simps) simp

lemmas tcp_defs = sendChunk_def writeCallback_def dataListener_def socketErrorListener_def
  serverErrorListener_def watchdog_def connectionListener_def timeoutT_def fireT_def
  resolveT_def rejectT_def newConn_def chunkSize_def slice_def Let_def

lemmas tcp_run_simps = advanceT_due advanceT_idle advanceT_early drainT_due drainT_idle
  sendFile_def newServer_def tcp_defs


lemma advanceT_preserves:
  assumes "P s"
    and "\<And>s d k rest. P s \<Longrightarrow> timers s = (d, k) # rest \<Longrightarrow> P (fireT n b s)"
    and "\<And>s t. P s \<Longrightarrow> quiet_until t s \<Longrightarrow> P (s\<lparr>clock := t\<rparr>)"
  shows "P (advanceT n b t s)"
  using assms
proof (induction n b t s rule: advanceT.induct)
  case (1 n b t s)
  show ?case
  proof (cases "timers s")
    case Nil
    then show ?thesis using 1(2,4) by (simp add: advanceT_idle quiet_until_def)
  next
    case (Cons x rest)
    obtain d k where x: "x = (d, k)" by (cases x)
    show ?thesis
    proof (cases "d \<le> t")
      case True
      have "P (fireT n b s)"
        using 1(2,3) Cons x by blast
      then have "P (advanceT n b t (fireT n b s))"
        using 1(1) [OF Cons x [symmetric] True] 1(3,4) by blast
      then show ?thesis using Cons x True by (simp add: advanceT_due)
    next
      case False
      then show ?thesis using Cons x 1(2,4) by (simp add: advanceT_early quiet_until_def)
    qed
  qed
qed

lemma drainT_preserves:
  assumes "P s"
    and "\<And>s d k rest. P s \<Longrightarrow> timers s = (d, k) # rest \<Longrightarrow> P (fireT n b s)"
  shows "P (drainT n b s)"
  using assms
proof (induction n b s rule: drainT.induct)
  case (1 n b s)
  show ?case
  proof (cases "timers s")
    case Nil
    then show ?thesis using 1(2) by (simp add: drainT_idle)
  next
    case (Cons x rest)
    obtain d k where x: "x = (d, k)" by (cases x)
    have "P (fireT n b s)"
      using 1(2,3) Cons x by blast
    then have "P (drainT n b (fireT n b s))"
      using 1(1) [OF Cons x [symmetric]] 1(3) by blast
    then show ?thesis using Cons x by (simp add: drainT_due)
  qed
qed

lemma feedT_preserves:
  assumes "P s"
    and "\<And>s d k rest. P s \<Longrightarrow> timers s = (d, k) # rest \<Longrightarrow> P (fireT n b s)"
    and "\<And>s t. P s \<Longrightarrow> quiet_until t s \<Longrightarrow> P (s\<lparr>clock := t\<rparr>)"
    and "\<And>s e. e \<in> snd ` set es \<Longrightarrow> P s \<Longrightarrow> P (emit n b e s)"
  shows "P (feedT n b es s)"
  using assms
proof (induction es arbitrary: s)
  case Nil
  then show ?case by simp
next
  case (Cons a es)
  obtain dt e where a: "a = (dt, e)" by (cases a)
  have "P (advanceT n b (clock s + dt) s)"
    using Cons.prems(1,2,3) by (rule advanceT_preserves [where P = P])
  then have "P (emit n b e (advanceT n b (clock s + dt) s))"
    using Cons.prems(4) a by simp
  then have "P (feedT n b es (emit n b e (advanceT n b (clock s + dt) s)))"
    using Cons.prems(2,3,4) by (intro Cons.IH) auto
  then show ?case by (simp add: a)
qed

lemma sendFile_preserves:
  assumes "P (newServer port)"
    and "\<And>s d k rest. P s \<Longrightarrow> timers s = (d, k) # rest \<Longrightarrow> P (fireT n (decode content) s)"
    and "\<And>s t. P s \<Longrightarrow> quiet_until t s \<Longrightarrow> P (s\<lparr>clock := t\<rparr>)"
    and "\<And>s e. e \<in> snd ` set es \<Longrightarrow> P s \<Longrightarrow> P (emit n (decode content) e s)"
  shows "P (sendFile decode port content n es)"
proof -
  have "P (feedT n (decode content) es (newServer port))"
    using assms by (rule feedT_preserves [where P = P])
  then show ?thesis
    unfolding sendFile_def using assms(2) by (rule drainT_preserves [where P = P])
qed

lemma timers_drainT: "timers (drainT n b s) = []"
proof (induction n b s rule: drainT.induct)
  case (1 n b s)
  show ?case
  proof (cases "timers s")
    case Nil
    then show ?thesis by (simp add: drainT_idle)
  next
    case (Cons x rest)
    then show ?thesis using 1 by (cases x) (simp add: drainT_due)
  qed
qed

lemma listenPort_sendFile: "listenPort (sendFile decode port content n es) = port"
proof (rule sendFile_preserves [where P = "\<lambda>s. listenPort s = port"])
  fix s :: transfer and e assume "listenPort s = port"
  then show "listenPort (emit n (decode content) e s) = port"
    by (cases e) (simp_all add: tcp_defs split: option.splits)
next
  fix s :: transfer and d k rest
  assume "listenPort s = port" "timers s = (d, k) # rest"
  then show "listenPort (fireT n (decode content) s) = port"
    by (cases k) (simp_all add: tcp_defs)
qed (simp_all add: newServer_def)

lemma sendFile_never_InvitationFailed:
  "promise (sendFile decode port content n es) \<noteq> Rejected InvitationFailed"
proof (rule sendFile_preserves [where P = "\<lambda>s. promise s \<noteq> Rejected InvitationFailed"])
  fix s :: transfer and e assume "promise s \<noteq> Rejected InvitationFailed"
  then show "promise (emit n (decode content) e s) \<noteq> Rejected InvitationFailed"
    by (cases e) (simp_all add: tcp_defs settle_if split: option.splits)
next
  fix s :: transfer and d k rest
  assume "promise s \<noteq> Rejected InvitationFailed" "timers s = (d, k) # rest"
  then show "promise (fireT n (decode content) s) \<noteq> Rejected InvitationFailed"
    by (cases k) (simp_all add: tcp_defs settle_if)
qed (simp_all add: newServer_def)


subsection \<open>Acknowledgments\<close>

text \<open>
  Claim C5, as the code has it. When a connection waits for its acknowledgment and data
  arrive, the payload is trimmed first. The transfer goes on (the next \<^verbatim>\<open>sendChunk\<close> is
  scheduled 10 ms later, the promise and the listener are left alone) if and only if the
  trimmed payload contains "OK" or is empty, that is, if and only if the payload contains
  "OK" or consists of whitespace only. Any other payload closes the listener and rejects
  the promise with the upload-failed error that carries the trimmed payload. In both
  cases the listener for data is detached.
\<close>

theorem ack_decides:
  assumes "i < length (conns s)" "awaitingData (conns s ! i)"
  shows "(let s' = emit n b (Data i payload) s
     in \<not> awaitingData (conns s' ! i) \<and>
        (if includes_str payload (js ''OK'') \<or> (\<forall>c\<in>set payload. isWhiteSpace c)
         then timers s' = setTimeout (clock s + 10, ChunkDelay i) (timers s) \<and>
              acked (conns s' ! i) = acked (conns s ! i) + 1 \<and>
              promise s' = promise s \<and> serverClosed s' = serverClosed s
         else timers s' = timers s \<and> acked (conns s' ! i) = acked (conns s ! i) \<and>
              promise s' = settle (Rejected (UploadFailed (trim payload))) (promise s) \<and>
              serverClosed s'))"
  using assms
  by (simp add: dataListener_def rejectT_def Let_def positiveAck_trim [symmetric])


text \<open>A connection that waits for the acknowledgment of its first chunk receives a line
  feed: the next chunk is scheduled.\<close>

theorem ack_decides_witness:
  "timers (emit 2500 [] (Data 0 [0x0A])
      (feedT 2500 [] [(5, Connection), (2, WriteDone 0 None)] (newServer 40000))) =
     [(17, ChunkDelay 0), (60000, Watchdog)]"
proof -
  let ?s = "feedT 2500 [] [(5, Connection), (2, WriteDone 0 None)] (newServer 40000)"
  have s: "0 < length (conns ?s)" "awaitingData (conns ?s ! 0)"
    "clock ?s = 7" "timers ?s = [(60000, Watchdog)]"
    by (simp_all add: tcp_run_simps)
  have c: "includes_str [0x0A] (js ''OK'') \<or> (\<forall>c\<in>set [0x0A::nat]. isWhiteSpace c)"
    by (simp add: isWhiteSpace_def)
  have "timers (emit 2500 [] (Data 0 [0x0A]) ?s) =
      setTimeout (clock ?s + 10, ChunkDelay 0) (timers ?s)"
    using ack_decides [OF s(1,2), of 2500 "[]" "[0x0A]"]
    unfolding Let_def if_P [OF c] by (rule conjunct2 [THEN conjunct1])
  then show ?thesis
    by (simp only: s setTimeout.simps fst_conv) simp
qed

text \<open>A line feed is not empty and does not contain "OK", yet after it the transfer of a
  one-chunk file goes on and completes.\<close>

theorem newline_ack_counterexample:
  "[0x0A] \<noteq> [] \<and> \<not> includes_str [0x0A] (js ''OK'') \<and>
   promise (sendFile (\<lambda>_. []) 40000 [] 1000
      [(5, Connection), (2, WriteDone 0 None), (3, Data 0 [0x0A])]) =
     Fulfilled \<lparr>uploadSuccess = True,
       uploadMessage = Some (js ''Upload completed successfully''),
       uploadFileSize = Some 1000, uploadFileMD5 = None\<rparr>"
  by (simp add: tcp_run_simps js_def trim_def isWhiteSpace_def positiveAck_def settle_if)


subsection \<open>What is closed on which path\<close>

text \<open>
  Claim C4, which the code breaks. \<^verbatim>\<open>socket.end()\<close> is called on normal completion only.
  After an unexpected acknowledgment the promise is rejected and the listener closed, but
  the accepted connection is not ended, neither at that moment (first part) nor later
  (second part); the same holds after a write error, a socket error and the watchdog
  timeout. The last part is the normal completion, where both are closed.
\<close>

theorem connection_left_open:
  "(let s = feedT 2500 b [(5, Connection), (2, WriteDone 0 None), (3, Data 0 (js ''ERR''))]
              (newServer port)
    in promise s = Rejected (UploadFailed (js ''ERR'')) \<and> serverClosed s \<and>
       map ended (conns s) = [False]) \<and>
   (let s = sendFile decode port content 2500
              [(5, Connection), (2, WriteDone 0 None), (3, Data 0 (js ''ERR''))]
    in promise s = Rejected (UploadFailed (js ''ERR'')) \<and> serverClosed s \<and>
       map ended (conns s) = [False]) \<and>
   (let s = sendFile decode port content 2500
              [(5, Connection), (2, WriteDone 0 (Some (js ''EPIPE'')))]
    in promise s = Rejected (LibError (js ''EPIPE'')) \<and> serverClosed s \<and>
       map ended (conns s) = [False]) \<and>
   (let s = sendFile decode port content 2500
              [(5, Connection), (2, SocketError 0 (js ''ECONNRESET''))]
    in promise s = Rejected (LibError (js ''ECONNRESET'')) \<and> serverClosed s \<and>
       map ended (conns s) = [False]) \<and>
   (let s = sendFile decode port content 2500 [(5, Connection), (2, WriteDone 0 None)]
    in promise s = Rejected ServerTimeout \<and> serverClosed s \<and>
       map ended (conns s) = [False]) \<and>
   (let s = sendFile decode port content 1000
              [(5, Connection), (2, WriteDone 0 None), (3, Data 0 (js ''OK''))]
    in promise s = Fulfilled \<lparr>uploadSuccess = True,
         uploadMessage = Some (js ''Upload completed successfully''),
         uploadFileSize = Some 1000, uploadFileMD5 = None\<rparr> \<and> serverClosed s \<and>
       map ended (conns s) = [True])"
  by (simp add: tcp_run_simps js_def trim_def isWhiteSpace_def positiveAck_def settle_if)


subsection \<open>The watchdog\<close>

lemma watchdogArmed_setTimeout:
  "watchdogArmed ts \<Longrightarrow> watchdogArmed (setTimeout (d', ChunkDelay i) ts)"
  by (induction ts) (auto split: if_splits)

lemma beforeWatchdog_tick:
  "beforeWatchdog s \<Longrightarrow> quiet_until t s \<Longrightarrow> beforeWatchdog (s\<lparr>clock := t\<rparr>)"
  by (cases "timers s")
    (auto simp: beforeWatchdog_def quiet_until_def split: if_splits option.splits)

lemma watchdog_fire:
  assumes "beforeWatchdog s \<or> afterWatchdog s" "timers s = (d, k) # rest"
  shows "beforeWatchdog (fireT n b s) \<or> afterWatchdog (fireT n b s)"
proof (cases k)
  case Watchdog
  then show ?thesis
    using assms
    by (auto simp: beforeWatchdog_def afterWatchdog_def fireT_def timeoutT_def watchdog_def
        rejectT_def settle_if split: option.splits)
next
  case (ChunkDelay i)
  then show ?thesis
    using assms
    by (auto simp: beforeWatchdog_def afterWatchdog_def fireT_def timeoutT_def sendChunk_def
        resolveT_def settle_if Let_def split: option.splits)
qed

lemma watchdog_emit:
  assumes "beforeWatchdog s \<or> afterWatchdog s"
  shows "beforeWatchdog (emit n b e s) \<or> afterWatchdog (emit n b e s)"
proof (cases e)
  case Connection
  then show ?thesis
    using assms
    by (auto simp: beforeWatchdog_def afterWatchdog_def connectionListener_def sendChunk_def
        resolveT_def settle_if Let_def split: option.splits)
next
  case (WriteDone i err)
  then show ?thesis
    using assms
    by (auto simp: beforeWatchdog_def afterWatchdog_def writeCallback_def
        rejectT_def settle_if Let_def split: option.splits)
next
  case (Data i payload)
  then show ?thesis
    using assms
    by (auto simp: beforeWatchdog_def afterWatchdog_def dataListener_def
        rejectT_def settle_if Let_def watchdogArmed_setTimeout split: option.splits)
next
  case (SocketError i err)
  then show ?thesis
    using assms
    by (auto simp: beforeWatchdog_def afterWatchdog_def socketErrorListener_def
        rejectT_def settle_if Let_def split: option.splits)
next
  case (ServerError err)
  then show ?thesis
    using assms
    by (auto simp: beforeWatchdog_def afterWatchdog_def serverErrorListener_def
        rejectT_def settle_if Let_def split: option.splits)
qed

lemma watchdog_tick:
  assumes "beforeWatchdog s \<or> afterWatchdog s" "quiet_until t s"
  shows "beforeWatchdog (s\<lparr>clock := t\<rparr>) \<or> afterWatchdog (s\<lparr>clock := t\<rparr>)"
  using assms beforeWatchdog_tick by (auto simp: afterWatchdog_def split: option.splits)

lemma sendFile_afterWatchdog: "afterWatchdog (sendFile decode port content n es)"
proof -
  let ?s = "sendFile decode port content n es"
  have "beforeWatchdog ?s \<or> afterWatchdog ?s"
  proof (rule sendFile_preserves [where P = "\<lambda>s. beforeWatchdog s \<or> afterWatchdog s"])
    show "beforeWatchdog (newServer port) \<or> afterWatchdog (newServer port)"
      by (simp add: beforeWatchdog_def newServer_def)
  next
    fix s d k rest
    assume "beforeWatchdog s \<or> afterWatchdog s" "timers s = (d, k) # rest"
    then show "beforeWatchdog (fireT n (decode content) s) \<or>
        afterWatchdog (fireT n (decode content) s)"
      by (rule watchdog_fire)
  next
    fix s t
    assume "beforeWatchdog s \<or> afterWatchdog s" "quiet_until t s"
    then show "beforeWatchdog (s\<lparr>clock := t\<rparr>) \<or> afterWatchdog (s\<lparr>clock := t\<rparr>)"
      by (rule watchdog_tick)
  next
    fix s e
    assume "beforeWatchdog s \<or> afterWatchdog s"
    then show "beforeWatchdog (emit n (decode content) e s) \<or>
        afterWatchdog (emit n (decode content) e s)"
      by (rule watchdog_emit)
  qed
  moreover have "timers ?s = []"
    by (simp add: sendFile_def timers_drainT)
  ultimately show ?thesis
    by (auto simp: beforeWatchdog_def)
qed


text \<open>
  What holds of the watchdog. It rejects a pending promise with the timeout error, leaves
  a settled one as it is, and closes the listener. In every run the listener ends up
  closed and the promise settled, at 60000 ms at the latest, with the timeout error
  exactly when it settled at 60000 ms; a result produced earlier stays. With no event at
  all the run ends in the timeout error.
\<close>

lemma watchdog_settles:
  "promise (watchdog s) = (if promise s = Pending then Rejected ServerTimeout else promise s) \<and>
   serverClosed (watchdog s) \<and>
   (let r = sendFile decode port content n es
    in serverClosed r \<and> promise r \<noteq> Pending \<and>
       (case settledAt r of None \<Rightarrow> False
        | Some t \<Rightarrow> t \<le> 60000 \<and> (promise r = Rejected ServerTimeout) = (t = 60000))) \<and>
   (let r = sendFile decode port content n []
    in promise r = Rejected ServerTimeout \<and> settledAt r = Some 60000 \<and> clock r = 60000 \<and>
       serverClosed r)"
proof -
  have 1: "promise (watchdog s) = (if promise s = Pending then Rejected ServerTimeout else promise s)"
    by (simp add: watchdog_def rejectT_def settle_if)
  have 4: "serverClosed (watchdog s)"
    by (simp add: watchdog_def rejectT_def)
  have 2: "let r = sendFile decode port content n es
    in serverClosed r \<and> promise r \<noteq> Pending \<and>
       (case settledAt r of None \<Rightarrow> False
        | Some t \<Rightarrow> t \<le> 60000 \<and> (promise r = Rejected ServerTimeout) = (t = 60000))"
    using sendFile_afterWatchdog [of decode port content n es]
    by (simp add: afterWatchdog_def Let_def)
  have 3: "let r = sendFile decode port content n []
    in promise r = Rejected ServerTimeout \<and> settledAt r = Some 60000 \<and> clock r = 60000 \<and>
       serverClosed r"
    by (simp add: tcp_run_simps settle_if)
  show ?thesis
    by (intro conjI) (fact 1 2 3 4)+
qed



text \<open>
  Claim C6, which the code breaks in the part "tears the session down, superseding
  whatever state the chunk loop is in". The watchdog callback calls \<^verbatim>\<open>server.close()\<close>
  and \<^verbatim>\<open>reject\<close> and nothing else: it neither ends the accepted connection nor stops its
  chunk loop. A 2500-byte transfer whose first chunk is written at 5 ms and confirmed at
  7 ms is still waiting for the acknowledgment at 60000 ms: the promise is rejected with
  the timeout error and the listener closed, but the connection is not ended and its
  listener for data stays attached (first part). When the acknowledgment "OK" arrives at
  60007 ms, the loop goes on: at 60017 ms the second chunk is handed to the socket, after
  the timeout error was returned (second part).
\<close>

theorem watchdog_leaves_loop_running:
  "(let s = advanceT 2500 b 60000
              (feedT 2500 b [(5, Connection), (2, WriteDone 0 None)] (newServer port))
    in promise s = Rejected ServerTimeout \<and> settledAt s = Some 60000 \<and> serverClosed s \<and>
       map ended (conns s) = [False] \<and> map awaitingData (conns s) = [True] \<and>
       map (\<lambda>c. length (written c)) (conns s) = [1]) \<and>
   (let s = sendFile decode port content 2500
              [(5, Connection), (2, WriteDone 0 None), (60000, Data 0 (js ''OK''))]
    in promise s = Rejected ServerTimeout \<and> settledAt s = Some 60000 \<and> serverClosed s \<and>
       clock s = 60017 \<and> map ended (conns s) = [False] \<and>
       map (\<lambda>c. length (written c)) (conns s) = [2] \<and>
       map pendingWrite (conns s) = [Some 1024])"
  by (simp add: tcp_run_simps js_def trim_def isWhiteSpace_def positiveAck_def settle_if)


subsection \<open>One chunk in flight\<close>

lemma set_setTimeout: "set (setTimeout x ts) = insert x (set ts)"
  by (induction ts) auto

lemma distinct_setTimeout:
  "distinct (map snd (setTimeout x ts)) \<longleftrightarrow> snd x \<notin> snd ` set ts \<and> distinct (map snd ts)"
  by (induction ts) (auto simp: set_setTimeout)

lemma inFlight_tick: "inFlight s \<Longrightarrow> inFlight (s\<lparr>clock := t\<rparr>)"
  by (simp add: inFlight_def)

lemma inFlight_settle:
  "inFlight (s\<lparr>promise := p, settledAt := q\<rparr>) = inFlight s"
  "inFlight (s\<lparr>serverClosed := c\<rparr>) = inFlight s"
  by (simp_all add: inFlight_def)

lemma inFlight_watchdog:
  assumes "inFlight s" "timers s = (d, Watchdog) # rest"
  shows "inFlight (watchdog (s\<lparr>clock := d, timers := rest\<rparr>))"
  using assms by (auto simp: inFlight_def watchdog_def rejectT_def)

lemma inFlight_sendChunk:
  assumes "inFlight s" "timers s = (d, ChunkDelay i) # rest"
  shows "inFlight (sendChunk n b i (s\<lparr>clock := d, timers := rest\<rparr>))"
proof -
  from assms have i: "i < length (conns s)" "\<not> awaitingData (conns s ! i)"
    "pendingWrite (conns s ! i) = None" "length (written (conns s ! i)) = acked (conns s ! i)"
    and rest: "ChunkDelay i \<notin> snd ` set rest" "distinct (map snd rest)"
    by (auto simp: inFlight_def)
  have others: "\<And>j. ChunkDelay j \<in> snd ` set rest \<Longrightarrow> j \<noteq> i"
    using rest by auto
  show ?thesis
    using assms i rest
    by (auto simp: inFlight_def sendChunk_def resolveT_def Let_def nth_list_update)
qed


lemma inFlight_fire:
  assumes "inFlight s" "timers s = (d, k) # rest"
  shows "inFlight (fireT n b s)"
  using assms inFlight_watchdog inFlight_sendChunk
  by (cases k) (simp_all add: fireT_def timeoutT_def)

lemma inFlight_connection: "inFlight s \<Longrightarrow> inFlight (connectionListener n b s)"
  unfolding inFlight_def connectionListener_def sendChunk_def resolveT_def newConn_def Let_def
  by (auto simp: nth_append nth_list_update less_Suc_eq)

lemma inFlight_writeCallback:
  "inFlight s \<Longrightarrow> i < length (conns s) \<Longrightarrow> inFlight (writeCallback i err s)"
  unfolding inFlight_def writeCallback_def rejectT_def Let_def
  by (auto simp: nth_list_update split: option.splits)

lemma inFlight_dataListener:
  assumes "inFlight s" "i < length (conns s)" "awaitingData (conns s ! i)"
  shows "inFlight (dataListener i payload s)"
proof -
  have "ChunkDelay i \<notin> snd ` set (timers s)"
    using assms by (auto simp: inFlight_def)
  then show ?thesis
    using assms
    unfolding inFlight_def dataListener_def rejectT_def Let_def
    by (auto simp: nth_list_update distinct_setTimeout set_setTimeout)
qed

lemma inFlight_emit: "inFlight s \<Longrightarrow> inFlight (emit n b e s)"
  by (cases e)
    (simp_all add: inFlight_connection inFlight_writeCallback inFlight_dataListener
      socketErrorListener_def serverErrorListener_def rejectT_def inFlight_settle)

lemma inFlight_feedT: "inFlight (feedT n b es (newServer port))"
proof (rule feedT_preserves [where P = inFlight])
  show "inFlight (newServer port)"
    by (simp add: inFlight_def newServer_def)
qed (simp_all add: inFlight_fire inFlight_tick inFlight_emit)

lemma inFlight_sendFile: "inFlight (sendFile decode port content n es)"
  unfolding sendFile_def
  using inFlight_feedT by (rule drainT_preserves [where P = inFlight]) (rule inFlight_fire)

lemma inFlight_written:
  assumes "inFlight s" "c \<in> set (conns s)"
  shows "length (written c) \<le> acked c + 1"
proof -
  from assms(2) obtain i where "i < length (conns s)" "c = conns s ! i"
    by (auto simp: in_set_conv_nth)
  then show ?thesis
    using assms(1) by (simp add: inFlight_def)
qed


subsection \<open>A transfer with every chunk acknowledged\<close>

lemma clock_advanceT: "clock (advanceT n b t s) = t"
proof (induction n b t s rule: advanceT.induct)
  case (1 n b t s)
  show ?case
  proof (cases "timers s")
    case Nil
    then show ?thesis by (simp add: advanceT_idle)
  next
    case (Cons x rest)
    obtain d k where x: "x = (d, k)" by (cases x)
    show ?thesis
    proof (cases "d \<le> t")
      case True
      then show ?thesis using 1 Cons x by (simp add: advanceT_due)
    next
      case False
      then show ?thesis using Cons x by (simp add: advanceT_early)
    qed
  qed
qed

lemma fireT_onlyWatchdogs:
  assumes "onlyWatchdogs (timers s)" "timers s = (d, k) # rest"
  shows "conns (fireT n b s) = conns s \<and> onlyWatchdogs (timers (fireT n b s))"
  using assms by (simp add: fireT_def timeoutT_def watchdog_def rejectT_def)

lemma advanceT_onlyWatchdogs:
  assumes "onlyWatchdogs (timers s)"
  shows "conns (advanceT n b t s) = conns s \<and> onlyWatchdogs (timers (advanceT n b t s))"
proof (rule advanceT_preserves
    [where P = "\<lambda>s'. conns s' = conns s \<and> onlyWatchdogs (timers s')"])
  fix s' :: transfer and d k rest
  assume "conns s' = conns s \<and> onlyWatchdogs (timers s')" "timers s' = (d, k) # rest"
  then show "conns (fireT n b s') = conns s \<and> onlyWatchdogs (timers (fireT n b s'))"
    using fireT_onlyWatchdogs [of s' d k rest n b] by simp
qed (simp_all add: assms)

lemma drainT_onlyWatchdogs:
  assumes "onlyWatchdogs (timers s)"
  shows "conns (drainT n b s) = conns s"
proof -
  have "conns (drainT n b s) = conns s \<and> onlyWatchdogs (timers (drainT n b s))"
  proof (rule drainT_preserves
      [where P = "\<lambda>s'. conns s' = conns s \<and> onlyWatchdogs (timers s')"])
    fix s' :: transfer and d k rest
    assume "conns s' = conns s \<and> onlyWatchdogs (timers s')" "timers s' = (d, k) # rest"
    then show "conns (fireT n b s') = conns s \<and> onlyWatchdogs (timers (fireT n b s'))"
      using fireT_onlyWatchdogs [of s' d k rest n b] by simp
  qed (simp_all add: assms)
  then show ?thesis by simp
qed

lemma sendChunk_conns:
  "conns s = conns s' \<Longrightarrow> conns (sendChunk n b i s) = conns (sendChunk n b i s')"
  "timers (sendChunk n b i s) = timers s"
  by (simp_all add: sendChunk_def resolveT_def Let_def)

lemma advanceT_chunkDue:
  assumes "timers s = ts" "chunkDue t i ts"
  shows "conns (advanceT n b t s) = conns (sendChunk n b i s) \<and>
         onlyWatchdogs (timers (advanceT n b t s))"
  using assms
proof (induction ts arbitrary: s)
  case Nil
  then show ?case by simp
next
  case (Cons x rest)
  obtain d k where x: "x = (d, k)" by (cases x)
  have d: "d \<le> t" using Cons.prems x by simp
  have adv: "advanceT n b t s = advanceT n b t (fireT n b s)"
    using Cons.prems(1) x d by (simp add: advanceT_due)
  show ?case
  proof (cases "k = Watchdog")
    case True
    let ?s1 = "fireT n b s"
    have s1: "timers ?s1 = rest" "conns ?s1 = conns s"
      using Cons.prems(1) x True by (simp_all add: fireT_def timeoutT_def watchdog_def rejectT_def)
    have "chunkDue t i rest" using Cons.prems(2) x True by simp
    from Cons.IH [OF s1(1) this]
    have "conns (advanceT n b t ?s1) = conns (sendChunk n b i ?s1) \<and>
         onlyWatchdogs (timers (advanceT n b t ?s1))" .
    then show ?thesis
      using adv sendChunk_conns(1) [OF s1(2), of n b i] by simp
  next
    case False
    then have k: "k = ChunkDelay i" and rest: "onlyWatchdogs rest"
      using Cons.prems(2) x by simp_all
    let ?s0 = "s\<lparr>clock := d, timers := rest\<rparr>"
    have fire: "fireT n b s = sendChunk n b i ?s0"
      using Cons.prems(1) x k by (simp add: fireT_def timeoutT_def)
    have "onlyWatchdogs (timers (sendChunk n b i ?s0))"
      using rest by (simp add: sendChunk_conns(2))
    from advanceT_onlyWatchdogs [OF this, of n b t]
    have "conns (advanceT n b t (sendChunk n b i ?s0)) = conns (sendChunk n b i ?s0) \<and>
        onlyWatchdogs (timers (advanceT n b t (sendChunk n b i ?s0)))" .
    moreover have "conns (sendChunk n b i ?s0) = conns (sendChunk n b i s)"
      by (rule sendChunk_conns(1)) simp
    ultimately show ?thesis
      using adv fire by simp
  qed
qed

lemma drainT_chunkDue:
  assumes "timers s = ts" "chunkDue t i ts"
  shows "conns (drainT n b s) = conns (sendChunk n b i s)"
  using assms
proof (induction ts arbitrary: s)
  case Nil
  then show ?case by simp
next
  case (Cons x rest)
  obtain d k where x: "x = (d, k)" by (cases x)
  have adv: "drainT n b s = drainT n b (fireT n b s)"
    using Cons.prems(1) x by (simp add: drainT_due)
  show ?case
  proof (cases "k = Watchdog")
    case True
    let ?s1 = "fireT n b s"
    have s1: "timers ?s1 = rest" "conns ?s1 = conns s"
      using Cons.prems(1) x True by (simp_all add: fireT_def timeoutT_def watchdog_def rejectT_def)
    have "chunkDue t i rest" using Cons.prems(2) x True by simp
    from Cons.IH [OF s1(1) this]
    have "conns (drainT n b ?s1) = conns (sendChunk n b i ?s1)" .
    then show ?thesis
      using adv sendChunk_conns(1) [OF s1(2), of n b i] by simp
  next
    case False
    then have k: "k = ChunkDelay i" and rest: "onlyWatchdogs rest"
      using Cons.prems(2) x by simp_all
    let ?s0 = "s\<lparr>clock := d, timers := rest\<rparr>"
    have fire: "fireT n b s = sendChunk n b i ?s0"
      using Cons.prems(1) x k by (simp add: fireT_def timeoutT_def)
    have "onlyWatchdogs (timers (sendChunk n b i ?s0))"
      using rest by (simp add: sendChunk_conns(2))
    from drainT_onlyWatchdogs [OF this, of n b]
    have "conns (drainT n b (sendChunk n b i ?s0)) = conns (sendChunk n b i ?s0)" .
    moreover have "conns (sendChunk n b i ?s0) = conns (sendChunk n b i s)"
      by (rule sendChunk_conns(1)) simp
    ultimately show ?thesis
      using adv fire by simp
  qed
qed

lemma chunkDue_setTimeout:
  "onlyWatchdogs ts \<Longrightarrow> d \<le> t \<Longrightarrow> chunkDue t i (setTimeout (d, ChunkDelay i) ts)"
  by (induction ts) auto

lemma chunkDue_mono: "chunkDue t i ts \<Longrightarrow> t \<le> t' \<Longrightarrow> chunkDue t' i ts"
  by (induction ts) (auto split: if_splits)


lemma min_chunk: "chunkSize * j < S \<Longrightarrow>
   chunkSize * j + min chunkSize (S - chunkSize * j) = min S (chunkSize * Suc j)"
  by (auto simp: min_def)

text \<open>The write is confirmed and the acknowledgment arrives.\<close>

lemma round_acked:
  fixes da :: nat
  assumes s: "conns s = [connWriting S B j]" "onlyWatchdogs (timers s)"
    and j: "chunkSize * j < S"
    and a: "positiveAck (trim a)"
  defines "s1 \<equiv> emit S B (WriteDone 0 None) s"
  defines "s2 \<equiv> emit S B (Data 0 a) (advanceT S B (clock s1 + da) s1)"
  shows "conns s2 = [connAcked S B (Suc j) False] \<and> chunkDue (clock s2 + 10) 0 (timers s2)"
proof -
  have c1: "conns s1 = [(connWriting S B j)\<lparr>pendingWrite := None,
       uploadedBytes := min S (chunkSize * Suc j),
       uploadedLog := map (\<lambda>k. min S (chunkSize * Suc k)) [0..<Suc j],
       awaitingData := True\<rparr>]"
    and t1: "timers s1 = timers s"
    using s(1) min_chunk [OF j]
    by (simp_all add: s1_def writeCallback_def connWriting_def Let_def)
  let ?s1' = "advanceT S B (clock s1 + da) s1"
  have s1': "conns ?s1' = conns s1" "onlyWatchdogs (timers ?s1')" "clock ?s1' = clock s1 + da"
    using advanceT_onlyWatchdogs [of s1 S B "clock s1 + da"] s(2) t1
    by (simp_all add: clock_advanceT)
  have c2: "conns s2 = [connAcked S B (Suc j) False]"
    and t2: "timers s2 = setTimeout (clock ?s1' + 10, ChunkDelay 0) (timers ?s1')"
    and k2: "clock s2 = clock ?s1'"
    using s1'(1) c1 a
    by (simp_all add: s2_def dataListener_def connWriting_def connAcked_def Let_def)
  show ?thesis
    using c2 t2 k2 s1'(2) by (simp add: chunkDue_setTimeout)
qed

text \<open>The delay is over: the next chunk is written, or the transfer is complete.\<close>

lemma sendChunk_acked:
  assumes "conns s = [connAcked S B j False]"
  shows "conns (sendChunk S B 0 s) =
     [if chunkSize * j < S then connWriting S B j else connAcked S B j True]"
  using assms
  by (auto simp: sendChunk_def resolveT_def connAcked_def connWriting_def chunkOf_def Let_def
      min_def)

lemma acked_loop:
  assumes "conns s = [connAcked S B j False]" "chunkDue (clock s + 10) 0 (timers s)"
    and "\<forall>(dw, da, a)\<in>set rounds. positiveAck (trim a)"
    and "chunkSize * (j + length rounds) \<ge> S"
    and "rounds \<noteq> [] \<longrightarrow> chunkSize * (j + length rounds - 1) < S"
  shows "conns (drainT S B (feedT S B (ackedRounds 10 rounds) s)) =
     [connAcked S B (j + length rounds) True]"
  using assms
proof (induction rounds arbitrary: s j)
  case Nil
  have "conns (drainT S B s) = conns (sendChunk S B 0 s)"
    using Nil.prems(2) by (rule drainT_chunkDue [OF refl])
  then show ?case
    using sendChunk_acked [OF Nil.prems(1)] Nil.prems(4) by simp
next
  case (Cons r rounds)
  obtain dw da a where r: "r = (dw, da, a)" by (cases r)
  have a: "positiveAck (trim a)" and rest: "\<forall>(dw, da, a)\<in>set rounds. positiveAck (trim a)"
    using Cons.prems(3) r by simp_all
  have j: "chunkSize * j < S"
    using Cons.prems(5) by (simp add: chunkSize_def)
  let ?t = "clock s + (10 + dw)"
  let ?s0 = "advanceT S B ?t s"
  have "chunkDue ?t 0 (timers s)"
    using Cons.prems(2) by (rule chunkDue_mono) simp
  from advanceT_chunkDue [OF refl this, of S B]
  have s0: "conns ?s0 = [connWriting S B j]" "onlyWatchdogs (timers ?s0)"
    using sendChunk_acked [OF Cons.prems(1)] j by simp_all
  define s1 where "s1 = emit S B (WriteDone 0 None) ?s0"
  define s2 where "s2 = emit S B (Data 0 a) (advanceT S B (clock s1 + da) s1)"
  have s2: "conns s2 = [connAcked S B (Suc j) False] \<and> chunkDue (clock s2 + 10) 0 (timers s2)"
    unfolding s2_def s1_def by (rule round_acked [OF s0 j a])
  have "conns (drainT S B (feedT S B (ackedRounds 10 rounds) s2)) =
     [connAcked S B (Suc j + length rounds) True]"
  proof (rule Cons.IH)
    show "conns s2 = [connAcked S B (Suc j) False]" "chunkDue (clock s2 + 10) 0 (timers s2)"
      using s2 by simp_all
    show "\<forall>(dw, da, a)\<in>set rounds. positiveAck (trim a)" by (rule rest)
    show "S \<le> chunkSize * (Suc j + length rounds)"
      using Cons.prems(4) by simp
    show "rounds \<noteq> [] \<longrightarrow> chunkSize * (Suc j + length rounds - 1) < S"
      using Cons.prems(5) by simp
  qed
  moreover have "feedT S B (ackedRounds 10 (r # rounds)) s = feedT S B (ackedRounds 10 rounds) s2"
    by (simp add: r s2_def s1_def del: emit.simps)
  ultimately show ?case by simp
qed


lemma connection_writes:
  assumes "conns s = []" "0 < S"
  shows "conns (emit S B Connection s) = [connWriting S B 0]"
    and "timers (emit S B Connection s) = timers s"
  using assms
  by (simp_all add: connectionListener_def sendChunk_def newConn_def connWriting_def
      chunkOf_def Let_def)

lemma chunk_count:
  fixes S :: nat
  shows "S \<le> 1024 * ((S + 1023) div 1024)"
    and "0 < S \<Longrightarrow> 1024 * ((S + 1023) div 1024 - 1) < S"
proof -
  define q where "q = (S + 1023) div 1024"
  define r where "r = (S + 1023) mod 1024"
  have "1024 * q + r = S + 1023"
    unfolding q_def r_def by (rule mult_div_mod_eq)
  moreover have "r < 1024"
    unfolding r_def by simp
  ultimately have "S \<le> 1024 * q" "1024 * q < S + 1024"
    by linarith+
  then show "S \<le> 1024 * ((S + 1023) div 1024)"
    and "0 < S \<Longrightarrow> 1024 * ((S + 1023) div 1024 - 1) < S"
    unfolding q_def [symmetric] by (simp_all add: right_diff_distrib')
qed

lemma acked_run:
  assumes S: "0 < S"
    and len: "length rounds = (S + 1023) div 1024"
    and acks: "\<forall>(dw, da, a)\<in>set rounds. positiveAck (trim a)"
  shows "conns (sendFile decode port content S ((d0, Connection) # ackedRounds 0 rounds)) =
     [connAcked S (decode content) ((S + 1023) div 1024) True]"
proof -
  let ?B = "decode content"
  from S len obtain r rs where rounds: "rounds = r # rs"
    by (cases rounds) auto
  obtain dw da a where r: "r = (dw, da, a)" by (cases r)
  have a: "positiveAck (trim a)" and rest: "\<forall>(dw, da, a)\<in>set rs. positiveAck (trim a)"
    using acks rounds r by simp_all
  have N: "Suc (length rs) = (S + 1023) div 1024"
    using len rounds by simp
  let ?sA = "advanceT S ?B (clock (newServer port) + d0) (newServer port)"
  have sA: "conns ?sA = []" "onlyWatchdogs (timers ?sA)"
    using advanceT_onlyWatchdogs [of "newServer port" S ?B]
    by (simp_all add: newServer_def)
  let ?sB = "emit S ?B Connection ?sA"
  have sB: "conns ?sB = [connWriting S ?B 0]" "onlyWatchdogs (timers ?sB)"
    using connection_writes [OF sA(1) S, of ?B] sA(2) by simp_all
  let ?sC = "advanceT S ?B (clock ?sB + (0 + dw)) ?sB"
  have sC: "conns ?sC = [connWriting S ?B 0]" "onlyWatchdogs (timers ?sC)"
    using advanceT_onlyWatchdogs [OF sB(2), of S ?B] sB(1) by simp_all
  define s1 where "s1 = emit S ?B (WriteDone 0 None) ?sC"
  define s2 where "s2 = emit S ?B (Data 0 a) (advanceT S ?B (clock s1 + da) s1)"
  have "chunkSize * 0 < S" using S by simp
  from round_acked [OF sC this a, of da]
  have s2: "conns s2 = [connAcked S ?B (Suc 0) False]" "chunkDue (clock s2 + 10) 0 (timers s2)"
    by (simp_all add: s2_def s1_def)
  have "conns (drainT S ?B (feedT S ?B (ackedRounds 10 rs) s2)) =
     [connAcked S ?B (Suc 0 + length rs) True]"
  proof (rule acked_loop [OF s2 rest])
    show "S \<le> chunkSize * (Suc 0 + length rs)"
      using N by (simp add: chunkSize_def)
    show "rs \<noteq> [] \<longrightarrow> chunkSize * (Suc 0 + length rs - 1) < S"
      using N chunk_count(2) [OF S] by (simp add: chunkSize_def)
  qed
  moreover have "sendFile decode port content S ((d0, Connection) # ackedRounds 0 rounds) =
      drainT S ?B (feedT S ?B (ackedRounds 10 rs) s2)"
    by (simp add: sendFile_def rounds r s2_def s1_def del: emit.simps)
  ultimately show ?thesis
    using N by simp
qed

lemma length_chunkOf:
  "length B = S \<Longrightarrow> length (chunkOf S B k) = min chunkSize (S - chunkSize * k)"
  by (simp add: chunkOf_def slice_def)

lemma concat_chunks:
  "length B = S \<Longrightarrow> concat (map (chunkOf S B) [0..<j]) = take (chunkSize * j) B"
proof (induction j)
  case 0
  then show ?case by simp
next
  case (Suc j)
  have "chunkOf S B j = take chunkSize (drop (chunkSize * j) B)"
    using Suc.prems by (simp add: chunkOf_def slice_def min_def)
  moreover have "take (chunkSize * j + chunkSize) B =
      take (chunkSize * j) B @ take chunkSize (drop (chunkSize * j) B)"
    by (rule take_add)
  moreover have "chunkSize * Suc j = chunkSize * j + chunkSize"
    by simp
  ultimately show ?case
    using Suc by (simp del: mult_Suc_right)
qed

lemma log_increasing:
  assumes "chunkSize * (N - 1) < S"
  shows "sorted_wrt (<) (map (\<lambda>k. min S (chunkSize * Suc k)) [0..<N])"
proof -
  have "min S (chunkSize * Suc i) < min S (chunkSize * Suc j)" if "i < j" "j < N" for i j
  proof -
    have "Suc i \<le> j" "j \<le> N - 1"
      using that by simp_all
    then have "chunkSize * Suc i \<le> chunkSize * j" "chunkSize * j \<le> chunkSize * (N - 1)"
      by (simp_all only: mult_le_mono2)
    note this(1)
    also note \<open>chunkSize * j \<le> chunkSize * (N - 1)\<close>
    finally have "chunkSize * Suc i < S" using assms by simp
    moreover have "chunkSize * Suc i < chunkSize * Suc j"
      using that(1) by (simp add: chunkSize_def)
    ultimately show ?thesis by simp
  qed
  then show ?thesis
    by (simp add: sorted_wrt_iff_nth_less)
qed


text \<open>
  Claim C2. Let the payload have \<open>S > 0\<close> bytes, let the device connect once, and let
  every chunk be confirmed and positively acknowledged (\<open>ceil(S / 1024)\<close> rounds, with
  any delays). Then that connection is ended with the counter at \<open>S\<close>; exactly
  \<open>ceil(S / 1024) = (S + 1023) div 1024\<close> chunks were written; each chunk has
  \<open>min 1024 (S - bytes written before it)\<close> bytes and together they are the payload; the
  counter took one value per chunk, strictly increasing, the last being \<open>S\<close>; and for
  \<open>S = 2500\<close> the chunks have 1024, 1024 and 452 bytes. Moreover, in every run
  whatsoever, at every moment and for every connection, the number of chunks written
  exceeds the number of acknowledgments the transfer went on after by at most one: no
  chunk is written before the acknowledgment of the one before it has arrived.
\<close>

theorem chunked_transfer:
  assumes "0 < S" and "length (decode content) = S"
    and "length rounds = (S + 1023) div 1024"
    and "\<forall>(dw, da, a)\<in>set rounds. positiveAck (trim a)"
  shows "(let r = sendFile decode port content S ((d0, Connection) # ackedRounds 0 rounds);
              c = conns r ! 0
          in length (conns r) = 1 \<and> ended c \<and> uploadedBytes c = S \<and>
             length (written c) = (S + 1023) div 1024 \<and>
             (\<forall>k<length (written c).
                length (written c ! k) = min 1024 (S - length (concat (take k (written c))))) \<and>
             concat (written c) = decode content \<and>
             length (uploadedLog c) = length (written c) \<and>
             sorted_wrt (<) (uploadedLog c) \<and> last (uploadedLog c) = S \<and>
             acked c = length (written c) \<and>
             (S = 2500 \<longrightarrow> map length (written c) = [1024, 1024, 452])) \<and>
         (\<forall>c\<in>set (conns (feedT S (decode content) es (newServer port))).
             length (written c) \<le> acked c + 1) \<and>
         (\<forall>c\<in>set (conns (sendFile decode port content S es)).
             length (written c) \<le> acked c + 1)"
proof -
  let ?B = "decode content"
  let ?N = "(S + 1023) div 1024"
  let ?r = "sendFile decode port content S ((d0, Connection) # ackedRounds 0 rounds)"
  define c where "c = connAcked S ?B ?N True"
  have r: "conns ?r = [c]"
    unfolding c_def using assms(1,3,4) by (rule acked_run)
  have N: "S \<le> chunkSize * ?N" "chunkSize * (?N - 1) < S" "0 < ?N"
    using chunk_count [of S] assms(1) by (simp_all add: chunkSize_def)
  have w: "written c = map (chunkOf S ?B) [0..<?N]"
    and l: "uploadedLog c = map (\<lambda>k. min S (chunkSize * Suc k)) [0..<?N]"
    and f: "ended c" "uploadedBytes c = S" "acked c = ?N"
    using N(1) by (simp_all add: c_def connAcked_def)
  have len: "length (written c) = ?N"
    by (simp add: w)
  have sizes: "length (written c ! k) = min 1024 (S - length (concat (take k (written c))))"
    if "k < length (written c)" for k
  proof -
    have k: "k < ?N" using that len by simp
    then have "k \<le> ?N - 1" by simp
    then have "chunkSize * k \<le> chunkSize * (?N - 1)"
      by (simp only: mult_le_mono2)
    then have kS: "chunkSize * k < S" using N(2) by (rule le_less_trans)
    have "take k (written c) = map (chunkOf S ?B) [0..<k]"
      using k by (simp add: w take_map)
    then have "concat (take k (written c)) = take (chunkSize * k) ?B"
      using concat_chunks [OF assms(2)] by simp
    then have "length (concat (take k (written c))) = chunkSize * k"
      using kS assms(2) by simp
    moreover have "length (written c ! k) = min chunkSize (S - chunkSize * k)"
      using k length_chunkOf [OF assms(2)] by (simp add: w)
    ultimately show ?thesis by (simp add: chunkSize_def)
  qed
  have all: "concat (written c) = ?B"
    using concat_chunks [OF assms(2), of ?N] N(1) assms(2) by (simp add: w)
  have log: "length (uploadedLog c) = length (written c)" "sorted_wrt (<) (uploadedLog c)"
    using log_increasing [OF N(2)] by (simp_all add: l w)
  have "last (uploadedLog c) = min S (chunkSize * Suc (?N - 1))"
    using N(3) by (simp add: l last_map del: mult_Suc_right)
  moreover have "Suc (?N - 1) = ?N"
    using N(3) by simp
  ultimately have lst: "last (uploadedLog c) = S"
    using N(1) by (simp only: min_absorb1)
  have ex: "map length (written c) = [1024, 1024, 452]" if "S = 2500"
  proof -
    have "[0..<?N] = [0, 1, 2]"
      using that by (simp add: upt_rec)
    then show ?thesis
      using that length_chunkOf [OF assms(2)] by (simp add: w chunkSize_def)
  qed
  have order1: "length (written c') \<le> acked c' + 1"
    if "c' \<in> set (conns (feedT S ?B es (newServer port)))" for c'
    using inFlight_feedT that by (rule inFlight_written)
  have order2: "length (written c') \<le> acked c' + 1"
    if "c' \<in> set (conns (sendFile decode port content S es))" for c'
    using inFlight_sendFile that by (rule inFlight_written)
  have c0: "conns ?r ! 0 = c" "length (conns ?r) = 1"
    using r by simp_all
  show ?thesis
    unfolding Let_def c0
    using f len sizes all log lst ex order1 order2 by auto
qed


text \<open>A payload of 2500 bytes, acknowledged with "OK", "OK" and a line feed, and a line
  feed alone.\<close>

theorem chunked_transfer_witness:
  "map length (written (conns (sendFile (\<lambda>_. replicate 2500 0) 40000 [] 2500
       ((5, Connection) #
        ackedRounds 0 [(2, 3, js ''OK''), (1, 2, js ''OK'' @ [0x0A]), (4, 1, [0x0A])])) ! 0)) =
     [1024, 1024, 452]"
proof -
  let ?rounds = "[(2, 3, js ''OK''), (1, 2, js ''OK'' @ [0x0A]), (4::nat, 1::nat, [0x0A::nat])]"
  have 1: "(0::nat) < 2500" by simp
  have 2: "length ((\<lambda>_. replicate 2500 (0::byte)) ([]::jsstring)) = 2500" by simp
  have 3: "length ?rounds = (2500 + 1023) div 1024" by simp
  have 4: "\<forall>(dw, da, a)\<in>set ?rounds. positiveAck (trim a)"
    by (simp add: positiveAck_def trim_def isWhiteSpace_def js_def)
  show ?thesis
    using chunked_transfer [OF 1 2 3 4, where port = 40000 and ?d0.0 = 5 and es = "[]"]
    unfolding Let_def by simp
qed


section \<open>Properties of the upload\<close>

lemma sendCalls_nonempty: "sendCalls (sendInvitation th ip port lp sz md cmd es) \<noteq> []"
proof (rule sendInvitation_preserves [where P = "\<lambda>s. sendCalls s \<noteq> []"])
  fix s :: invitation and e assume "sendCalls s \<noteq> []"
  then show "sendCalls (deliver e s) \<noteq> []"
    by (cases e) (simp_all add: udp_defs)
qed (simp_all add: udp_defs newSocket_def)


text \<open>
  Claim C9. Whenever the promise of \<^verbatim>\<open>sendInvitation\<close> is fulfilled, the result has
  \<open>success = True\<close>: whatever the events, the arguments and the behaviour of the UDP
  library. So the branch of \<^verbatim>\<open>uploadFirmware\<close> that throws "ESP invitation failed" is
  never taken: no upload returns that error.
\<close>

theorem invitation_failed_unreachable:
  "(\<forall>r. outcome (sendInvitation th ip port lp sz md cmd es) = Fulfilled r \<longrightarrow> success r) \<and>
   returned (uploadFirmware env ip port filePath password) \<noteq> Rejected InvitationFailed"
proof
  show "\<forall>r. outcome (sendInvitation th ip port lp sz md cmd es) = Fulfilled r \<longrightarrow> success r"
    using fulfilled_success by blast
  show "returned (uploadFirmware env ip port filePath password) \<noteq> Rejected InvitationFailed"
    using never_InvitationFailed fulfilled_success sendFile_never_InvitationFailed
    by (auto simp: uploadFirmware_def Let_def split: sum.splits promise.splits)
qed


text \<open>A fulfilled invitation, and its \<open>success\<close>.\<close>

theorem invitation_failed_unreachable_witness:
  "outcome (sendInvitation False (js ''192.168.1.100'') 3232 40000 2500 (js ''d41d'') FLASH
      [(300, Reply (js ''AUTH abc123''))]) =
     Fulfilled \<lparr>success = True, needsAuth = True, nonce = Some (js ''abc123'')\<rparr> \<and>
   success \<lparr>success = True, needsAuth = True, nonce = Some (js ''abc123'')\<rparr>"
proof -
  have a: "outcome (sendInvitation False (js ''192.168.1.100'') 3232 40000 2500 (js ''d41d'')
      FLASH [(300, Reply (js ''AUTH abc123''))]) =
     Fulfilled \<lparr>success = True, needsAuth = True, nonce = Some (js ''abc123'')\<rparr>"
    by (simp add: run_simps js_def trim_def isWhiteSpace_def index_opt_def settle_if)
  have "\<forall>r. outcome (sendInvitation False (js ''192.168.1.100'') 3232 40000 2500 (js ''d41d'')
      FLASH [(300, Reply (js ''AUTH abc123''))]) = Fulfilled r \<longrightarrow> success r"
    using invitation_failed_unreachable by (rule conjunct1)
  with a have "success \<lparr>success = True, needsAuth = True, nonce = Some (js ''abc123'')\<rparr>"
    by blast
  with a show ?thesis by (rule conjI)
qed


text \<open>
  The port is computed on the reals in the model. The floating-point product cannot
  leave the range either: \<^verbatim>\<open>Math.random()\<close> is at most \<open>1 - 2\<^sup>-\<^sup>5\<^sup>3\<close>, and a product
  \<open>p\<close> rounded to within \<open>2\<^sup>-\<^sup>3\<^sup>8\<close> (half a unit in the last place below \<open>2\<^sup>1\<^sup>6\<close>) of the exact
  one stays below 50000.
\<close>

lemma rounded_port_in_range:
  fixes r p :: real
  assumes "0 \<le> r" "r \<le> 1 - 1 / 2 ^ 53" "0 \<le> p" "\<bar>p - r * 50000\<bar> \<le> 1 / 2 ^ 38"
  shows "10000 \<le> nat \<lfloor>p\<rfloor> + 10000 \<and> nat \<lfloor>p\<rfloor> + 10000 \<le> 59999"
proof -
  have "p \<le> r * 50000 + 1 / 2 ^ 38"
    using assms(4) by linarith
  also have "\<dots> \<le> (1 - 1 / 2 ^ 53) * 50000 + 1 / 2 ^ 38"
    using assms(2) by simp
  also have "\<dots> < 50000"
    by simp
  finally have "p < 50000" .
  then have "\<lfloor>p\<rfloor> < 50000"
    by linarith
  then show ?thesis by linarith
qed


text \<open>
  Claim C10. When \<^verbatim>\<open>Math.random()\<close> returns a number in \<open>[0, 1)\<close>, the local port is
  between 10000 and 59999. Whenever the file could be read, the invitation is run: it
  sends at least one datagram, and every datagram is the invitation for command FLASH,
  that port, the file size and the digest, sent to the given address and port; and when
  the invitation is fulfilled the transfer is run with its listener on the same port,
  otherwise no transfer is run. Conversely a transfer is only ever run after a fulfilled
  invitation, and every invitation and every transfer of an upload carry that port.
\<close>

theorem local_port_range:
  assumes "0 \<le> random env" "random env < 1"
  shows "10000 \<le> randomPort (random env) \<and> randomPort (random env) \<le> 59999 \<and>
    (\<forall>sz content. statSize env = Inr sz \<and> readFile env = Inr content \<longrightarrow>
       (\<exists>i. invitationRun (uploadFirmware env ip port filePath password) = Some i \<and>
            sendCalls i \<noteq> [] \<and>
            (\<forall>c\<in>set (sendCalls i).
                snd c = (invitationMessage FLASH (randomPort (random env)) sz
                           (md5 env content), port, ip)) \<and>
            (if is_Fulfilled (outcome i)
             then \<exists>x. transferRun (uploadFirmware env ip port filePath password) = Some x \<and>
                      listenPort x = randomPort (random env)
             else transferRun (uploadFirmware env ip port filePath password) = None))) \<and>
    (\<forall>i. invitationRun (uploadFirmware env ip port filePath password) = Some i \<longrightarrow>
       sendCalls i \<noteq> [] \<and>
       (\<forall>c\<in>set (sendCalls i). \<exists>sz d.
           fst (snd c) = invitationMessage FLASH (randomPort (random env)) sz d)) \<and>
    (\<forall>x. transferRun (uploadFirmware env ip port filePath password) = Some x \<longrightarrow>
       listenPort x = randomPort (random env) \<and>
       (\<exists>i. invitationRun (uploadFirmware env ip port filePath password) = Some i \<and>
            is_Fulfilled (outcome i)))"
proof -
  let ?u = "uploadFirmware env ip port filePath password"
  let ?p = "randomPort (random env)"
  have "random env * 50000 < 50000"
    using assms(2) by simp
  then have "\<lfloor>random env * 50000\<rfloor> < 50000"
    by linarith
  then have range: "10000 \<le> ?p \<and> ?p \<le> 59999"
    unfolding randomPort_def by linarith
  have both: "\<exists>i. invitationRun ?u = Some i \<and> sendCalls i \<noteq> [] \<and>
            (\<forall>c\<in>set (sendCalls i).
                snd c = (invitationMessage FLASH ?p sz (md5 env content), port, ip)) \<and>
            (if is_Fulfilled (outcome i)
             then \<exists>x. transferRun ?u = Some x \<and> listenPort x = ?p
             else transferRun ?u = None)"
    if "statSize env = Inr sz \<and> readFile env = Inr content" for sz content
  proof -
    let ?i = "sendInvitation (sendThrows env) ip port ?p sz (md5 env content) FLASH
                (udpEvents env)"
    have run: "invitationRun ?u = Some ?i"
      using that by (simp add: uploadFirmware_def Let_def split: promise.splits)
    have calls: "sendCalls ?i \<noteq> []"
      by (rule sendCalls_nonempty)
    have msg: "\<forall>c\<in>set (sendCalls ?i).
        snd c = (invitationMessage FLASH ?p sz (md5 env content), port, ip)"
      using sendCalls_message by blast
    have xfer: "if is_Fulfilled (outcome ?i)
             then \<exists>x. transferRun ?u = Some x \<and> listenPort x = ?p
             else transferRun ?u = None"
    proof (cases "outcome ?i")
      case (Fulfilled r)
      then have "success r" by (rule fulfilled_success)
      then show ?thesis
        using that Fulfilled by (simp add: uploadFirmware_def Let_def listenPort_sendFile)
    qed (use that in \<open>simp_all add: uploadFirmware_def Let_def\<close>)
    show ?thesis
      using run calls msg xfer by blast
  qed
  have inv: "sendCalls i \<noteq> [] \<and>
       (\<forall>c\<in>set (sendCalls i). \<exists>sz d. fst (snd c) = invitationMessage FLASH ?p sz d)"
    if "invitationRun ?u = Some i" for i
  proof -
    from that obtain sz d where
      "i = sendInvitation (sendThrows env) ip port ?p sz d FLASH (udpEvents env)"
      by (auto simp: uploadFirmware_def Let_def split: sum.splits promise.splits if_splits)
    then show ?thesis
      using sendCalls_nonempty sendCalls_message by fastforce
  qed
  have reached: "listenPort x = ?p \<and> (\<exists>i. invitationRun ?u = Some i \<and> is_Fulfilled (outcome i))"
    if "transferRun ?u = Some x" for x
    using that listenPort_sendFile
    by (auto simp: uploadFirmware_def Let_def split: sum.splits promise.splits if_splits)
  show ?thesis
    using range both inv reached by blast
qed


text \<open>An upload with \<^verbatim>\<open>Math.random() = 0.5\<close>: the invitation "0 35000 1000 d41d" is sent
  and accepted, and the transfer listens on port 35000.\<close>

theorem local_port_range_witness:
  "randomPort (1 / 2) = 35000 \<and>
   (\<exists>i x. invitationRun (uploadFirmware
        \<lparr>statSize = Inr 1000, readFile = Inr (js ''AAAA''), md5 = (\<lambda>_. js ''d41d''),
         base64 = (\<lambda>_. []), random = 1 / 2, sendThrows = False,
         udpEvents = [(300, Reply (js ''OK''))],
         tcpEvents = [(5, Connection), (2, WriteDone 0 None), (3, Data 0 (js ''OK''))]\<rparr>
        (js ''192.168.1.100'') 3232 (js ''/firmware.bin'') []) = Some i \<and>
      transferRun (uploadFirmware
        \<lparr>statSize = Inr 1000, readFile = Inr (js ''AAAA''), md5 = (\<lambda>_. js ''d41d''),
         base64 = (\<lambda>_. []), random = 1 / 2, sendThrows = False,
         udpEvents = [(300, Reply (js ''OK''))],
         tcpEvents = [(5, Connection), (2, WriteDone 0 None), (3, Data 0 (js ''OK''))]\<rparr>
        (js ''192.168.1.100'') 3232 (js ''/firmware.bin'') []) = Some x \<and>
      sendCalls i \<noteq> [] \<and>
      snd (hd (sendCalls i)) =
        (js ''0 35000 1000 d41d'' @ [0x0A], 3232, js ''192.168.1.100'') \<and>
      listenPort x = 35000)"
proof -
  let ?env = "\<lparr>statSize = Inr 1000, readFile = Inr (js ''AAAA''), md5 = (\<lambda>_. js ''d41d''),
         base64 = (\<lambda>_. []), random = 1 / 2, sendThrows = False,
         udpEvents = [(300, Reply (js ''OK''))],
         tcpEvents = [(5, Connection), (2, WriteDone 0 None), (3, Data 0 (js ''OK''))]\<rparr>"
  let ?u = "uploadFirmware ?env (js ''192.168.1.100'') 3232 (js ''/firmware.bin'') []"
  have r: "0 \<le> random ?env" "random ?env < 1"
    by simp_all
  have p: "randomPort (random ?env) = 35000" "randomPort (1 / 2) = 35000"
    by (simp_all add: randomPort_def)
  have files: "statSize ?env = Inr 1000 \<and> readFile ?env = Inr (js ''AAAA'')"
    by simp
  have msg: "invitationMessage FLASH 35000 1000 (md5 ?env (js ''AAAA'')) =
      js ''0 35000 1000 d41d'' @ [0x0A]"
    by (simp add: invitationMessage_def FLASH_def show_nat.simps js_def)
  from local_port_range [OF r, of "js ''192.168.1.100''" 3232 "js ''/firmware.bin''" "[]"] files
  obtain i where i: "invitationRun ?u = Some i" "sendCalls i \<noteq> []"
    and calls: "\<forall>c\<in>set (sendCalls i).
        snd c = (invitationMessage FLASH (randomPort (random ?env)) 1000
                   (md5 ?env (js ''AAAA'')), 3232, js ''192.168.1.100'')"
    and phase: "if is_Fulfilled (outcome i)
             then \<exists>x. transferRun ?u = Some x \<and> listenPort x = randomPort (random ?env)
             else transferRun ?u = None"
    by blast
  have "outcome (sendInvitation False (js ''192.168.1.100'') 3232 35000 1000 (js ''d41d'') FLASH
      [(300, Reply (js ''OK''))]) = Fulfilled \<lparr>success = True, needsAuth = False, nonce = None\<rparr>"
    by (simp add: run_simps js_def trim_def isWhiteSpace_def settle_if)
  moreover have "i = sendInvitation False (js ''192.168.1.100'') 3232 35000 1000 (js ''d41d'') FLASH
      [(300, Reply (js ''OK''))]"
    using i(1) by (simp add: uploadFirmware_def Let_def p split: promise.splits if_splits)
  ultimately have "is_Fulfilled (outcome i)"
    by simp
  with phase obtain x where x: "transferRun ?u = Some x" "listenPort x = randomPort (random ?env)"
    by auto
  have "hd (sendCalls i) \<in> set (sendCalls i)"
    using i(2) by simp
  with calls have "snd (hd (sendCalls i)) =
      (js ''0 35000 1000 d41d'' @ [0x0A], 3232, js ''192.168.1.100'')"
    unfolding p msg by blast
  with i x p show ?thesis
    by auto
qed


end
